theory Spec2Isabelle
  imports Complex_Main "HOL-Library.Multiset"
begin

section \<open>Failures\<close>

text \<open>
  The library never recovers from a contract violation: \<^verbatim>\<open>TBTKAssert\<close> and
  \<^verbatim>\<open>TBTKExit\<close> print a diagnostic and end the process, and \<^verbatim>\<open>at()\<close> on a
  standard container throws. Every such exit is a value of \<open>error\<close>; a function that can
  take one returns \<open>error + 'a\<close>, with \<open>Inl\<close> for the failure.

  The macros themselves are declared in \<^verbatim>\<open>TBTKMacros.h\<close>, which is not among the
  sources; \<^verbatim>\<open>TBTKAssert\<close> is taken with its checks compiled in, as the
  specification's fail-fast policy has it.
\<close>

datatype error =
    NoDevicesAvailable
      \<comment> \<open>\<^verbatim>\<open>TBTKAssert(numDevices > 0)\<close> in \<^verbatim>\<open>allocateDevice\<close>\<close>
  | InvalidMemoryAccess
      \<comment> \<open>an unchecked read or write outside an array or vector; undefined in the source\<close>
  | UnknownEnergyType
      \<comment> \<open>\<^verbatim>\<open>TBTKExit\<close> in the default branch of \<^verbatim>\<open>calculateSelfEnergyVertex\<close>\<close>
  | ComponentCountMismatch nat
      \<comment> \<open>\<^verbatim>\<open>TBTKAssert(components.size() == 5)\<close>, with the size found\<close>
  | SubindexCountMismatch nat nat
      \<comment> \<open>\<^verbatim>\<open>TBTKAssert(intraBlockIndices[n].getSize() == 1)\<close>, with \<open>n+1\<close> and the size found\<close>
  | OutOfRange
      \<comment> \<open>\<^verbatim>\<open>std::out_of_range\<close> from \<^verbatim>\<open>at()\<close>, or a state outside \<open>[0, N)\<close>\<close>
  | IndexNotIncluded
      \<comment> \<open>\<^verbatim>\<open>getOffset\<close> on an Index the property does not contain\<close>

section \<open>GPUResourceManager\<close>

text \<open>
  The static members \<^verbatim>\<open>numDevices\<close> (an \<^verbatim>\<open>int\<close>) and \<^verbatim>\<open>busyDevices\<close> (a
  \<^verbatim>\<open>bool*\<close>, here the list of the flags it points to). The lock
  \<^verbatim>\<open>busyDevicesLock\<close> is not a field: whatever runs between \<^verbatim>\<open>omp_set_lock\<close>
  and \<^verbatim>\<open>omp_unset_lock\<close> is one function of the model, applied atomically.
\<close>

record GPUResourceManager =
  numDevices :: int
  busyDevices :: "bool list"

text \<open>
  Modelled from the spec: \<^verbatim>\<open>createDeviceTable\<close> is called by the static constructor
  but defined outside the sources. The pool is sized once, to the number of devices
  probed, and no device is busy at start.
\<close>

definition createDeviceTable :: "nat \<Rightarrow> GPUResourceManager" where
  "createDeviceTable K = \<lparr>numDevices = int K, busyDevices = replicate K False\<rparr>"

text \<open>The table holds one flag per device.\<close>

definition tableSized :: "GPUResourceManager \<Rightarrow> bool" where
  "tableSized s \<longleftrightarrow> int (length (busyDevices s)) = numDevices s"

text \<open>
  The \<^verbatim>\<open>for\<close> loop of \<^verbatim>\<open>allocateDevice\<close>, from \<open>n\<close> on: one pass over the flags
  under the lock. \<open>Some n\<close> is \<^verbatim>\<open>done = true\<close> with \<^verbatim>\<open>device = n\<close>; \<open>None\<close> is a pass
  that found every device busy.
\<close>

function scanDevices ::
  "GPUResourceManager \<Rightarrow> nat \<Rightarrow> error + (nat option \<times> GPUResourceManager)" where
  "scanDevices s n =
     (if int n < numDevices s then
        (if n < length (busyDevices s) then
           (if \<not> busyDevices s ! n
            then Inr (Some n, s\<lparr>busyDevices := (busyDevices s)[n := True]\<rparr>)
            else scanDevices s (Suc n))
         else Inl InvalidMemoryAccess)
      else Inr (None, s))"
  by pat_completeness auto
termination
  by (relation "measure (\<lambda>(s, n). nat (numDevices s) - n)") auto

declare scanDevices.simps [simp del]

text \<open>
  The \<^verbatim>\<open>while(!done)\<close> loop as one thread sees it when no other thread touches the
  pool: a pass that finds nothing is followed by another pass. \<open>None\<close> is a loop that
  never ends.
\<close>

partial_function (option) allocateLoop ::
  "GPUResourceManager \<Rightarrow> (error + (int \<times> GPUResourceManager)) option" where
  "allocateLoop s =
     (case scanDevices s 0 of
        Inl e \<Rightarrow> Some (Inl e)
      | Inr r \<Rightarrow>
          (case fst r of
             Some n \<Rightarrow> Some (Inr (int n, snd r))
           | None \<Rightarrow> allocateLoop (snd r)))"

definition allocateDevice ::
  "GPUResourceManager \<Rightarrow> (error + (int \<times> GPUResourceManager)) option" where
  "allocateDevice s =
     (if numDevices s > 0 then allocateLoop s else Some (Inl NoDevicesAvailable))"

text \<open>
  \<^verbatim>\<open>freeDevice\<close>: the write \<^verbatim>\<open>busyDevices[device] = false\<close> is unchecked in the source;
  outside the table it is undefined there and a failure here.
\<close>

definition freeDevice :: "GPUResourceManager \<Rightarrow> int \<Rightarrow> error + GPUResourceManager" where
  "freeDevice s device =
     (if 0 \<le> device \<and> nat device < length (busyDevices s)
      then Inr (s\<lparr>busyDevices := (busyDevices s)[nat device := False]\<rparr>)
      else Inl InvalidMemoryAccess)"

text \<open>
  The pool shared by several callers. A configuration is the pool together with the
  leases outstanding: the pairs of a caller and the device id that \<^verbatim>\<open>allocateDevice\<close>
  returned to it and that it has not yet passed to \<^verbatim>\<open>freeDevice\<close>. Each step is one
  locked section of one caller: a pass of the scan that takes a device, a pass that
  finds none (the caller polls again), or the release of a device by the caller that
  holds it.
\<close>

inductive reachable ::
  "nat \<Rightarrow> GPUResourceManager \<times> (nat \<times> int) list \<Rightarrow> bool" for K :: nat where
  start: "reachable K (createDeviceTable K, [])"
| taken: "reachable K (s, ls) \<Longrightarrow> 0 < numDevices s \<Longrightarrow>
          scanDevices s 0 = Inr (Some n, s') \<Longrightarrow>
          reachable K (s', (caller, int n) # ls)"
| polled: "reachable K (s, ls) \<Longrightarrow> 0 < numDevices s \<Longrightarrow>
          scanDevices s 0 = Inr (None, s') \<Longrightarrow>
          reachable K (s', ls)"
| released: "reachable K (s, ls) \<Longrightarrow> (caller, device) \<in> set ls \<Longrightarrow>
          freeDevice s device = Inr s' \<Longrightarrow>
          reachable K (s', remove1 (caller, device) ls)"

text \<open>
  What every step keeps: the table has \<open>K\<close> flags, no device id occurs in two leases,
  a flag is set exactly when its device is leased, and only devices of the pool are
  leased.
\<close>

definition leaseInv :: "nat \<Rightarrow> GPUResourceManager \<times> (nat \<times> int) list \<Rightarrow> bool" where
  "leaseInv K c \<longleftrightarrow>
     (case c of (s, ls) \<Rightarrow>
        numDevices s = int K \<and> length (busyDevices s) = K \<and> distinct (map snd ls)
        \<and> (\<forall>d<K. busyDevices s ! d \<longleftrightarrow> int d \<in> snd ` set ls)
        \<and> (\<forall>d \<in> snd ` set ls. 0 \<le> d \<and> d < int K))"

section \<open>Indices\<close>

text \<open>
  An Index is an ordered sequence of integer subindices. \<^verbatim>\<open>Index.h\<close> is not among the
  sources, so the three operations the vertex code uses are given here.

  \<^verbatim>\<open>at(n)\<close> is the checked read of a standard container: it throws
  \<^verbatim>\<open>std::out_of_range\<close> when \<open>n\<close> is not a position of the sequence.
\<close>

type_synonym Index = "int list"

definition at_checked :: "'a list \<Rightarrow> nat \<Rightarrow> error + 'a" where
  "at_checked xs n = (if n < length xs then Inr (xs ! n) else Inl OutOfRange)"

text \<open>
  Modelled from the spec: \<^verbatim>\<open>Index::split\<close> and the construction of a compound Index
  from component Indices are declared outside the sources. A compound Index is the
  concatenation of its components, kept apart by a sentinel subindex; splitting cuts
  at every sentinel, so an Index without one is its own single component. The
  sentinel's value is declared outside the sources as well and is the parameter
  \<open>sep\<close> throughout.
\<close>

fun Index_split :: "int \<Rightarrow> Index \<Rightarrow> Index list" where
  "Index_split sep [] = [[]]"
| "Index_split sep (x # xs) =
     (if x = sep then [] # Index_split sep xs
      else (case Index_split sep xs of
              [] \<Rightarrow> [[x]]
            | c # cs \<Rightarrow> (x # c) # cs))"

fun compoundIndex :: "int \<Rightarrow> Index list \<Rightarrow> Index" where
  "compoundIndex sep [] = []"
| "compoundIndex sep [c] = c"
| "compoundIndex sep (c # cs) = c @ sep # compoundIndex sep cs"

section \<open>Arithmetic\<close>

text \<open>
  The vertex code computes with \<^verbatim>\<open>double\<close> and \<^verbatim>\<open>complex<double>\<close>. Their operations
  belong to the platform, not to the library, and each of them rounds its result. They
  are a parameter of the model: \<open>'c\<close> is the type of the \<^verbatim>\<open>complex<double>\<close> values,
  \<open>'d\<close> the type of the \<^verbatim>\<open>double\<close> values, and an arithmetic gives the operations the
  vertex code uses on them. A magnitude is given by its value as a real number, since
  the code only compares it.
\<close>

record ('c, 'd) arithmetic =
  czero :: 'c
    \<comment> \<open>the \<^verbatim>\<open>0.\<close> that \<^verbatim>\<open>push_back\<close> converts to \<^verbatim>\<open>complex<double>\<close>\<close>
  cplus :: "'c \<Rightarrow> 'c \<Rightarrow> 'c"
    \<comment> \<open>the sum that \<^verbatim>\<open>+=\<close> stores\<close>
  ctimes :: "'c \<Rightarrow> 'c \<Rightarrow> 'c"
    \<comment> \<open>\<^verbatim>\<open>*\<close> of two \<^verbatim>\<open>complex<double>\<close>\<close>
  cscale :: "'c \<Rightarrow> 'd \<Rightarrow> 'c"
    \<comment> \<open>\<^verbatim>\<open>*\<close> of a \<^verbatim>\<open>complex<double>\<close> and a \<^verbatim>\<open>double\<close>\<close>
  cabs :: "'c \<Rightarrow> real"
    \<comment> \<open>the value of the \<^verbatim>\<open>double\<close> that \<^verbatim>\<open>abs\<close> returns\<close>
  cutoff :: real
    \<comment> \<open>the value of the \<^verbatim>\<open>double\<close> that the literal \<^verbatim>\<open>1e-10\<close> denotes\<close>

text \<open>
  Arithmetic without rounding, on the complex and the real numbers. No machine has it;
  it is what the rounded operations approximate.
\<close>

definition exactArithmetic :: "(complex, real) arithmetic" where
  "exactArithmetic =
     \<lparr>czero = 0, cplus = (\<lambda>a b. a + b), ctimes = (\<lambda>a b. a * b),
      cscale = (\<lambda>a m. a * complex_of_real m), cabs = cmod, cutoff = 1 / 10 ^ 10\<rparr>"

text \<open>
  IEEE 754 binary64 arithmetic, rounding to nearest with ties to even, on the values
  that are whole numbers: a \<^verbatim>\<open>double\<close> is given by the integer it holds, and a
  \<^verbatim>\<open>complex<double>\<close> with imaginary part zero by the integer of its real part. The
  rounded sums and products of such values are such values again (below the overflow
  threshold \<open>2^1024\<close>), the magnitude of one is its absolute value, which \<^verbatim>\<open>abs\<close>
  returns exactly, and the literal \<^verbatim>\<open>1e-10\<close> denotes the \<^verbatim>\<open>double\<close>
  \<^verbatim>\<open>0x1.b7cdfd9d7bdbbp-34\<close>, which is \<open>7737125245533627 / 2^86\<close>. An integer that
  is no binary64 value stands for nothing; the operations never produce one.

  A binary64 value has a significand of 53 bits. \<open>excessBits a\<close> is the number of low
  bits of \<open>a\<close> beyond 53, and \<open>roundToDouble\<close> rounds them away: to the nearer of the two
  neighbours, and to the one with the even significand when they are equally near.
\<close>

function excessBits :: "nat \<Rightarrow> nat" where
  "excessBits a = (if a < 2 ^ 53 then 0 else Suc (excessBits (a div 2)))"
  by pat_completeness auto
termination
  by (relation "measure (\<lambda>a. a)") auto

declare excessBits.simps [simp del]

definition roundToDouble :: "int \<Rightarrow> int" where
  "roundToDouble x =
     (let a = nat \<bar>x\<bar>;
          e = excessBits a;
          q = a div 2 ^ e;
          r = a mod 2 ^ e;
          q' = (if 2 ^ e < 2 * r \<or> (2 * r = 2 ^ e \<and> odd q) then q + 1 else q)
      in sgn x * int (q' * 2 ^ e))"

definition integerDoubles :: "(int, int) arithmetic" where
  "integerDoubles =
     \<lparr>czero = 0,
      cplus = (\<lambda>a b. roundToDouble (a + b)),
      ctimes = (\<lambda>a b. roundToDouble (a * b)),
      cscale = (\<lambda>a m. roundToDouble (a * m)),
      cabs = (\<lambda>a. real_of_int \<bar>a\<bar>),
      cutoff = 7737125245533627 / 2 ^ 86\<rparr>"

section \<open>Interaction amplitudes and the susceptibility\<close>

text \<open>
  Modelled from the spec: \<^verbatim>\<open>InteractionAmplitude.h\<close> is not among the sources. An
  InteractionAmplitude carries a complex amplitude and the Indices of its creation and
  annihilation operators, two of each with one subindex in the specification's data
  model. The model keeps the two sequences as the vertex code reads them, through
  \<^verbatim>\<open>getCreationOperatorIndex(n)\<close> and \<^verbatim>\<open>getAnnihilationOperatorIndex(n)\<close> followed
  by \<^verbatim>\<open>at(0)\<close>, so that a read of an operator or subindex that is not there fails.
\<close>

record 'c InteractionAmplitude =
  amplitude :: 'c
  creationOperatorIndices :: "Index list"
  annihilationOperatorIndices :: "Index list"

definition getCreationOperatorIndex ::
  "'c InteractionAmplitude \<Rightarrow> nat \<Rightarrow> error + Index" where
  "getCreationOperatorIndex u n = at_checked (creationOperatorIndices u) n"

definition getAnnihilationOperatorIndex ::
  "'c InteractionAmplitude \<Rightarrow> nat \<Rightarrow> error + Index" where
  "getAnnihilationOperatorIndex u n = at_checked (annihilationOperatorIndices u) n"

text \<open>
  The energy types of an energy-resolved property. The vertex code names \<open>Real\<close> and
  \<open>BosonicMatsubara\<close>; the specification's third representation is the fermionic one.
\<close>

datatype EnergyType = RealEnergy | FermionicMatsubara | BosonicMatsubara

text \<open>
  What the vertex code reads of a \<^verbatim>\<open>Property::Susceptibility\<close>, whose class is not
  among the sources: its energy type, the two sizes, the flat data, and
  \<^verbatim>\<open>getOffset\<close>, a partial map from the Indices the property holds to offsets into
  the data. On any other Index the call yields no offset, which is a failure here.
\<close>

record 'c Susceptibility =
  energyType :: EnergyType
  resolution :: nat
  numMatsubaraEnergies :: nat
  susceptibilityData :: "'c list"
  offsets :: "Index \<Rightarrow> nat option"

definition getOffset :: "'c Susceptibility \<Rightarrow> Index \<Rightarrow> error + nat" where
  "getOffset S i = (case offsets S i of None \<Rightarrow> Inl IndexNotIncluded | Some k \<Rightarrow> Inr k)"

record ('c, 'd) ElectronFluctuationVertex =
  susceptibility :: "'c Susceptibility"
  leftInteraction :: "'c InteractionAmplitude list"
  rightInteraction :: "'c InteractionAmplitude list"
  multiplier :: 'd

section \<open>ElectronFluctuationVertex\<close>

text \<open>
  The four reads at the head of each loop body,
  \<^verbatim>\<open>getCreationOperatorIndex(0).at(0)\<close> to \<^verbatim>\<open>getAnnihilationOperatorIndex(1).at(0)\<close>,
  in the source's order: \<open>(c0, c1, a0, a1)\<close>.
\<close>

definition firstSubindex :: "error + Index \<Rightarrow> error + int" where
  "firstSubindex r = (case r of Inl e \<Rightarrow> Inl e | Inr i \<Rightarrow> at_checked i 0)"

definition operatorSubindices ::
  "'c InteractionAmplitude \<Rightarrow> error + (int \<times> int \<times> int \<times> int)" where
  "operatorSubindices u =
     (case firstSubindex (getCreationOperatorIndex u 0) of Inl e \<Rightarrow> Inl e | Inr c0 \<Rightarrow>
      case firstSubindex (getCreationOperatorIndex u 1) of Inl e \<Rightarrow> Inl e | Inr c1 \<Rightarrow>
      case firstSubindex (getAnnihilationOperatorIndex u 0) of Inl e \<Rightarrow> Inl e | Inr a0 \<Rightarrow>
      case firstSubindex (getAnnihilationOperatorIndex u 1) of Inl e \<Rightarrow> Inl e | Inr a1 \<Rightarrow>
        Inr (c0, c1, a0, a1))"

text \<open>
  The test \<^verbatim>\<open>abs(amplitude) < 1e-10\<close> as the code computes it: the \<^verbatim>\<open>double\<close> that
  \<^verbatim>\<open>abs\<close> returns, compared with the \<^verbatim>\<open>double\<close> of the literal. The comparison of
  two \<^verbatim>\<open>double\<close> values is the comparison of their values.
\<close>

definition negligible :: "('c, 'd) arithmetic \<Rightarrow> 'c \<Rightarrow> bool" where
  "negligible A a \<longleftrightarrow> cabs A a < cutoff A"

text \<open>
  The product \<^verbatim>\<open>amplitude_i*amplitude_o*(data)*multiplier\<close>, taken from the left as
  the source's expression is.
\<close>

definition pairTerm :: "('c, 'd) arithmetic \<Rightarrow> 'c \<Rightarrow> 'c \<Rightarrow> 'c \<Rightarrow> 'd \<Rightarrow> 'c" where
  "pairTerm A amplitude_i amplitude_o x mul =
     cscale A (ctimes A (ctimes A amplitude_i amplitude_o) x) mul"

text \<open>
  The innermost loop, from \<open>n\<close> on:
  \<^verbatim>\<open>selfEnergyVertex.at(n) += amplitude_i*amplitude_o*data[offset + n]*multiplier\<close>.
  The read of the susceptibility data is unchecked in the source.
\<close>

function energyLoop ::
  "('c, 'd) arithmetic \<Rightarrow> 'c list \<Rightarrow> 'c \<Rightarrow> 'c \<Rightarrow> 'c list \<Rightarrow> nat \<Rightarrow> 'd \<Rightarrow> nat
   \<Rightarrow> error + 'c list" where
  "energyLoop A selfEnergyVertex amplitude_i amplitude_o sData offset mul n =
     (if n < length selfEnergyVertex then
        (if offset + n < length sData then
           energyLoop A
             (selfEnergyVertex[n := cplus A (selfEnergyVertex ! n)
                (pairTerm A amplitude_i amplitude_o (sData ! (offset + n)) mul)])
             amplitude_i amplitude_o sData offset mul (Suc n)
         else Inl InvalidMemoryAccess)
      else Inr selfEnergyVertex)"
  by pat_completeness auto
termination
  by (relation "measure (\<lambda>(A, v, ai, ao, d, off, m, n). length v - n)") auto

declare energyLoop.simps [simp del]

text \<open>
  The loop over \<^verbatim>\<open>uRight\<close> for one incoming amplitude that passed the filter.
  \<open>ib\<close> is \<^verbatim>\<open>intraBlockIndices\<close>.
\<close>

fun rightLoop ::
  "('c, 'd) arithmetic \<Rightarrow> int \<Rightarrow> Index \<Rightarrow> Index list \<Rightarrow> 'c Susceptibility \<Rightarrow> 'd \<Rightarrow> 'c
   \<Rightarrow> int \<Rightarrow> int \<Rightarrow> 'c list \<Rightarrow> 'c InteractionAmplitude list \<Rightarrow> error + 'c list" where
  "rightLoop A sep kIndex ib S mul amplitude_i c1_i a0_i selfEnergyVertex [] =
     Inr selfEnergyVertex"
| "rightLoop A sep kIndex ib S mul amplitude_i c1_i a0_i selfEnergyVertex (u # uRight) =
     (case operatorSubindices u of
        Inl e \<Rightarrow> Inl e
      | Inr (c0_o, c1_o, a0_o, a1_o) \<Rightarrow>
          if a0_o \<noteq> ib ! 0 ! 0 \<or> c1_o \<noteq> ib ! 1 ! 0 \<or> negligible A (amplitude u)
          then rightLoop A sep kIndex ib S mul amplitude_i c1_i a0_i selfEnergyVertex uRight
          else
            (case getOffset S
                    (compoundIndex sep [kIndex, [c0_o], [a1_o], [c1_i], [a0_i]]) of
               Inl e \<Rightarrow> Inl e
             | Inr offset \<Rightarrow>
                 (case energyLoop A selfEnergyVertex amplitude_i (amplitude u)
                         (susceptibilityData S) offset mul 0 of
                    Inl e \<Rightarrow> Inl e
                  | Inr v \<Rightarrow>
                      rightLoop A sep kIndex ib S mul amplitude_i c1_i a0_i v uRight)))"

text \<open>The loop over \<^verbatim>\<open>uLeft\<close>.\<close>

fun leftLoop ::
  "('c, 'd) arithmetic \<Rightarrow> int \<Rightarrow> Index \<Rightarrow> Index list \<Rightarrow> 'c Susceptibility \<Rightarrow> 'd
   \<Rightarrow> 'c InteractionAmplitude list \<Rightarrow> 'c list \<Rightarrow> 'c InteractionAmplitude list
   \<Rightarrow> error + 'c list" where
  "leftLoop A sep kIndex ib S mul uRight selfEnergyVertex [] = Inr selfEnergyVertex"
| "leftLoop A sep kIndex ib S mul uRight selfEnergyVertex (u # uLeft) =
     (case operatorSubindices u of
        Inl e \<Rightarrow> Inl e
      | Inr (c0_i, c1_i, a0_i, a1_i) \<Rightarrow>
          if a1_i \<noteq> ib ! 3 ! 0 \<or> c0_i \<noteq> ib ! 2 ! 0 \<or> negligible A (amplitude u)
          then leftLoop A sep kIndex ib S mul uRight selfEnergyVertex uLeft
          else
            (case rightLoop A sep kIndex ib S mul (amplitude u) c1_i a0_i
                    selfEnergyVertex uRight of
               Inl e \<Rightarrow> Inl e
             | Inr v \<Rightarrow> leftLoop A sep kIndex ib S mul uRight v uLeft))"

text \<open>
  The loop of assertions over \<^verbatim>\<open>intraBlockIndices\<close>, from \<open>n\<close> on: the first
  component that does not have exactly one subindex ends the process, reported as
  component \<open>n+1\<close> with its size.
\<close>

fun assertSingleSubindex :: "Index list \<Rightarrow> nat \<Rightarrow> error option" where
  "assertSingleSubindex [] n = None"
| "assertSingleSubindex (c # cs) n =
     (if length c = 1 then assertSingleSubindex cs (Suc n)
      else Some (SubindexCountMismatch (Suc n) (length c)))"

definition calculateSelfEnergyVertexMainAlgorithm ::
  "('c, 'd) arithmetic \<Rightarrow> int \<Rightarrow> 'c list \<Rightarrow> Index \<Rightarrow> 'c Susceptibility
   \<Rightarrow> 'c InteractionAmplitude list \<Rightarrow> 'c InteractionAmplitude list \<Rightarrow> 'd
   \<Rightarrow> error + 'c list" where
  "calculateSelfEnergyVertexMainAlgorithm A sep selfEnergyVertex index S uLeft uRight mul =
     (let components = Index_split sep index in
      if length components \<noteq> 5 then Inl (ComponentCountMismatch (length components))
      else
        let kIndex = components ! 0;
            intraBlockIndices =
              [components ! 1, components ! 2, components ! 3, components ! 4]
        in (case assertSingleSubindex intraBlockIndices 0 of
              Some e \<Rightarrow> Inl e
            | None \<Rightarrow>
                leftLoop A sep kIndex intraBlockIndices S mul uRight selfEnergyVertex
                  uLeft))"

text \<open>
  \<^verbatim>\<open>calculateSelfEnergyVertex\<close>: the switch on the energy type, the vector of
  \<open>numEnergies\<close> zeros, and the call of the main algorithm on the members of the solver.
\<close>

definition numEnergiesOf :: "'c Susceptibility \<Rightarrow> error + nat" where
  "numEnergiesOf S =
     (case energyType S of
        RealEnergy \<Rightarrow> Inr (resolution S)
      | BosonicMatsubara \<Rightarrow> Inr (numMatsubaraEnergies S)
      | FermionicMatsubara \<Rightarrow> Inl UnknownEnergyType)"

definition calculateSelfEnergyVertex ::
  "('c, 'd) arithmetic \<Rightarrow> int \<Rightarrow> ('c, 'd) ElectronFluctuationVertex \<Rightarrow> Index
   \<Rightarrow> error + 'c list" where
  "calculateSelfEnergyVertex A sep solver index =
     (case numEnergiesOf (susceptibility solver) of
        Inl e \<Rightarrow> Inl e
      | Inr numEnergies \<Rightarrow>
          calculateSelfEnergyVertexMainAlgorithm A sep (replicate numEnergies (czero A)) index
            (susceptibility solver) (leftInteraction solver) (rightInteraction solver)
            (multiplier solver))"

section \<open>PropertyExtractor::Diagonalizer\<close>

text \<open>
  Modelled from the spec: \<^verbatim>\<open>Solver::Diagonalizer::getEigenValue\<close> is defined outside
  the sources. The solver holds the \<open>N\<close> eigenvalues in ascending order, and
  \<open>eigenvalue(state)\<close> fails if \<open>state\<close> is not in \<open>[0, N)\<close>.
\<close>

record Solver_Diagonalizer =
  eigenValues :: "real list"

definition Solver_getEigenValue :: "Solver_Diagonalizer \<Rightarrow> int \<Rightarrow> error + real" where
  "Solver_getEigenValue solver state =
     (if 0 \<le> state \<and> state < int (length (eigenValues solver))
      then Inr (eigenValues solver ! nat state)
      else Inl OutOfRange)"

text \<open>
  The property extractor holds a pointer to the solver, and its inline
  \<^verbatim>\<open>getEigenValue\<close> passes the state on unchanged.
\<close>

record Diagonalizer =
  dSolver :: Solver_Diagonalizer

definition getEigenValue :: "Diagonalizer \<Rightarrow> int \<Rightarrow> error + real" where
  "getEigenValue pe state = Solver_getEigenValue (dSolver pe) state"

section \<open>Notions used to state the properties\<close>

text \<open>The two diagnostics of the arity checks of the main algorithm.\<close>

fun isArityMismatch :: "error \<Rightarrow> bool" where
  "isArityMismatch (ComponentCountMismatch k) = True"
| "isArityMismatch (SubindexCountMismatch n k) = True"
| "isArityMismatch e = False"

text \<open>The vector a call returns, if it returns one.\<close>

definition returned :: "error + 'a \<Rightarrow> 'a option" where
  "returned r = (case r of Inl e \<Rightarrow> None | Inr v \<Rightarrow> Some v)"

text \<open>
  The amplitude lists with every amplitude removed that the test of the code finds
  below the cutoff, the others in their order.
\<close>

definition removeNegligible ::
  "('c, 'd) arithmetic \<Rightarrow> 'c InteractionAmplitude list \<Rightarrow> 'c InteractionAmplitude list" where
  "removeNegligible A us = filter (\<lambda>u. \<not> negligible A (amplitude u)) us"

text \<open>
  An addition for which the order of two successive increments does not matter:
  \<open>(a + b) + c = (a + c) + b\<close>. Exact addition is one; the rounded addition of
  \<^verbatim>\<open>double\<close> is not.
\<close>

definition incrementsCommute :: "('c, 'd) arithmetic \<Rightarrow> bool" where
  "incrementsCommute A \<longleftrightarrow>
     (\<forall>a b c. cplus A (cplus A a b) c = cplus A (cplus A a c) b)"

text \<open>
  Adding to each entry of a vector the value of a function at its position, as one
  run of the innermost loop does.
\<close>

definition vadd :: "('c, 'd) arithmetic \<Rightarrow> (nat \<Rightarrow> 'c) \<Rightarrow> 'c list \<Rightarrow> 'c list" where
  "vadd A f v = map (\<lambda>n. cplus A (v ! n) (f n)) [0..<length v]"

text \<open>
  What one amplitude of a list does to a vector of \<open>N\<close> entries: \<open>None\<close> when the loop
  body ends the process on it, otherwise the increments it adds, one after the other;
  none for an amplitude the filter skips. \<open>rightStep\<close> is the body of the loop over
  \<^verbatim>\<open>uRight\<close> for a fixed incoming amplitude, \<open>leftStep\<close> the body of the loop over
  \<^verbatim>\<open>uLeft\<close>, with the whole inner loop inside.
\<close>

definition rightStep ::
  "('c, 'd) arithmetic \<Rightarrow> int \<Rightarrow> Index \<Rightarrow> Index list \<Rightarrow> 'c Susceptibility \<Rightarrow> 'd \<Rightarrow> 'c
   \<Rightarrow> int \<Rightarrow> int \<Rightarrow> nat \<Rightarrow> 'c InteractionAmplitude \<Rightarrow> (nat \<Rightarrow> 'c) list option" where
  "rightStep A sep kIndex ib S mul amplitude_i c1_i a0_i N u =
     (case operatorSubindices u of
        Inl e \<Rightarrow> None
      | Inr (c0_o, c1_o, a0_o, a1_o) \<Rightarrow>
          if a0_o \<noteq> ib ! 0 ! 0 \<or> c1_o \<noteq> ib ! 1 ! 0 \<or> negligible A (amplitude u)
          then Some []
          else
            (case offsets S (compoundIndex sep [kIndex, [c0_o], [a1_o], [c1_i], [a0_i]]) of
               None \<Rightarrow> None
             | Some offset \<Rightarrow>
                 if \<forall>k<N. offset + k < length (susceptibilityData S)
                 then Some [\<lambda>k. pairTerm A amplitude_i (amplitude u)
                                   (susceptibilityData S ! (offset + k)) mul]
                 else None))"

definition leftStep ::
  "('c, 'd) arithmetic \<Rightarrow> int \<Rightarrow> Index \<Rightarrow> Index list \<Rightarrow> 'c Susceptibility \<Rightarrow> 'd
   \<Rightarrow> 'c InteractionAmplitude list \<Rightarrow> nat \<Rightarrow> 'c InteractionAmplitude
   \<Rightarrow> (nat \<Rightarrow> 'c) list option" where
  "leftStep A sep kIndex ib S mul uRight N u =
     (case operatorSubindices u of
        Inl e \<Rightarrow> None
      | Inr (c0_i, c1_i, a0_i, a1_i) \<Rightarrow>
          if a1_i \<noteq> ib ! 3 ! 0 \<or> c0_i \<noteq> ib ! 2 ! 0 \<or> negligible A (amplitude u)
          then Some []
          else if \<forall>r \<in> set uRight.
                    rightStep A sep kIndex ib S mul (amplitude u) c1_i a0_i N r \<noteq> None
          then Some (concat (map (\<lambda>r. the (rightStep A sep kIndex ib S mul (amplitude u)
                                              c1_i a0_i N r)) uRight))
          else None)"

section \<open>A small vertex\<close>

text \<open>
  Concrete data for the examples below, with whole numbers so that it can be read in
  either arithmetic: the sentinel is \<open>-1\<close>, the compound Index has the components
  \<open>[0], [1], [2], [3], [4]\<close>, and the susceptibility holds five values, read in two
  overlapping blocks at the offsets 0 and 2.
\<close>

definition exampleIndex :: Index where
  "exampleIndex = [0, -1, 1, -1, 2, -1, 3, -1, 4]"

definition exampleSusceptibility :: "'c::numeral Susceptibility" where
  "exampleSusceptibility =
     \<lparr>energyType = RealEnergy, resolution = 2, numMatsubaraEnergies = 3,
      susceptibilityData = [1, 2, 3, 4, 5],
      offsets = [[0, -1, 7, -1, 8, -1, 5, -1, 6] \<mapsto> 0,
                 [0, -1, 7, -1, 8, -1, 9, -1, 6] \<mapsto> 2]\<rparr>"

definition exampleLeftA :: "'c::numeral InteractionAmplitude" where
  "exampleLeftA =
     \<lparr>amplitude = 2, creationOperatorIndices = [[3], [5]],
      annihilationOperatorIndices = [[6], [4]]\<rparr>"

definition exampleLeftB :: "'c::numeral InteractionAmplitude" where
  "exampleLeftB =
     \<lparr>amplitude = 5, creationOperatorIndices = [[3], [9]],
      annihilationOperatorIndices = [[6], [4]]\<rparr>"

definition exampleLeftSmall :: "'c::zero InteractionAmplitude" where
  "exampleLeftSmall =
     \<lparr>amplitude = 0, creationOperatorIndices = [[3], [5]],
      annihilationOperatorIndices = [[6], [4]]\<rparr>"

definition exampleRight :: "'c::numeral InteractionAmplitude" where
  "exampleRight =
     \<lparr>amplitude = 3, creationOperatorIndices = [[7], [2]],
      annihilationOperatorIndices = [[1], [8]]\<rparr>"

definition exampleRightSmall :: "'c::zero InteractionAmplitude" where
  "exampleRightSmall =
     \<lparr>amplitude = 0, creationOperatorIndices = [[7], [2]],
      annihilationOperatorIndices = [[1], [8]]\<rparr>"

definition exampleSolver :: "('c::{zero,numeral}, 'd::one) ElectronFluctuationVertex" where
  "exampleSolver =
     \<lparr>susceptibility = exampleSusceptibility,
      leftInteraction = [exampleLeftA, exampleLeftSmall, exampleLeftB],
      rightInteraction = [exampleRightSmall, exampleRight],
      multiplier = 1\<rparr>"

section \<open>The device pool: one pass of the scan\<close>

lemma scanDevices_hit:
  "scanDevices s n = Inr (Some k, s') \<Longrightarrow>
     n \<le> k \<and> int k < numDevices s \<and> k < length (busyDevices s) \<and> \<not> busyDevices s ! k
     \<and> (\<forall>m. n \<le> m \<and> m < k \<longrightarrow> busyDevices s ! m)
     \<and> s' = s\<lparr>busyDevices := (busyDevices s)[k := True]\<rparr>"
proof (induction s n rule: scanDevices.induct)
  case (1 s n)
  show ?case
  proof (cases "int n < numDevices s \<and> n < length (busyDevices s) \<and> busyDevices s ! n")
    case True
    with "1.prems" have "scanDevices s (Suc n) = Inr (Some k, s')"
      by (subst (asm) scanDevices.simps) simp
    with True "1.IH" have *: "Suc n \<le> k \<and> int k < numDevices s \<and> k < length (busyDevices s)
        \<and> \<not> busyDevices s ! k \<and> (\<forall>m. Suc n \<le> m \<and> m < k \<longrightarrow> busyDevices s ! m)
        \<and> s' = s\<lparr>busyDevices := (busyDevices s)[k := True]\<rparr>"
      by simp
    have "busyDevices s ! m" if "n \<le> m" "m < k" for m
    proof (cases "m = n")
      case True
      then show ?thesis using \<open>int n < numDevices s \<and> n < length (busyDevices s) \<and> busyDevices s ! n\<close> by simp
    next
      case False
      with that * show ?thesis by simp
    qed
    with * show ?thesis by simp
  next
    case False
    with "1.prems" show ?thesis
      by (subst (asm) scanDevices.simps) (auto split: if_splits)
  qed
qed

lemma scanDevices_miss:
  "scanDevices s n = Inr (None, s') \<Longrightarrow>
     s' = s \<and> (\<forall>m. n \<le> m \<and> int m < numDevices s \<longrightarrow> m < length (busyDevices s) \<and> busyDevices s ! m)"
proof (induction s n rule: scanDevices.induct)
  case (1 s n)
  show ?case
  proof (cases "int n < numDevices s")
    case True
    with "1.prems" have b: "n < length (busyDevices s)" "busyDevices s ! n"
      and r: "scanDevices s (Suc n) = Inr (None, s')"
      by (subst (asm) scanDevices.simps; simp split: if_splits)+
    with True "1.IH" have *: "s' = s \<and> (\<forall>m. Suc n \<le> m \<and> int m < numDevices s \<longrightarrow> m < length (busyDevices s) \<and> busyDevices s ! m)"
      by simp
    have "m < length (busyDevices s) \<and> busyDevices s ! m" if "n \<le> m" "int m < numDevices s" for m
      using that * b by (cases "m = n") auto
    with * show ?thesis by simp
  next
    case False
    with "1.prems" show ?thesis
      by (subst (asm) scanDevices.simps) auto
  qed
qed

lemma scanDevices_fault:
  "scanDevices s n = Inl e \<Longrightarrow> n \<le> length (busyDevices s) \<Longrightarrow>
     e = InvalidMemoryAccess \<and> int (length (busyDevices s)) < numDevices s"
proof (induction s n rule: scanDevices.induct)
  case (1 s n)
  show ?case
  proof (cases "int n < numDevices s \<and> n < length (busyDevices s) \<and> busyDevices s ! n")
    case True
    with "1.prems" have "scanDevices s (Suc n) = Inl e"
      by (subst (asm) scanDevices.simps) simp
    with True "1.IH" show ?thesis by simp
  next
    case False
    with "1.prems" show ?thesis
      by (subst (asm) scanDevices.simps) (auto split: if_splits)
  qed
qed

lemma scanDevices_finds:
  "n \<le> k \<Longrightarrow> int k < numDevices s \<Longrightarrow> k < length (busyDevices s) \<Longrightarrow> \<not> busyDevices s ! k \<Longrightarrow>
     \<exists>j. scanDevices s n = Inr (Some j, s\<lparr>busyDevices := (busyDevices s)[j := True]\<rparr>) \<and> j \<le> k"
proof (induction s n rule: scanDevices.induct)
  case (1 s n)
  have n: "int n < numDevices s" "n < length (busyDevices s)"
    using "1.prems" by auto
  show ?case
  proof (cases "busyDevices s ! n")
    case True
    with "1.prems" have "n \<noteq> k" by auto
    with "1.prems" have "Suc n \<le> k" by simp
    with "1.IH" n True "1.prems" obtain j where
      "scanDevices s (Suc n) = Inr (Some j, s\<lparr>busyDevices := (busyDevices s)[j := True]\<rparr>)" "j \<le> k"
      by blast
    with n True show ?thesis
      by (subst scanDevices.simps) simp
  next
    case False
    with n "1.prems" show ?thesis
      by (subst scanDevices.simps) auto
  qed
qed

lemma allocateLoop_result:
  assumes "allocateLoop s = Some r"
  shows "(\<exists>e. scanDevices s 0 = Inl e \<and> r = Inl e)
     \<or> (\<exists>n s'. scanDevices s 0 = Inr (Some n, s') \<and> r = Inr (int n, s'))"
proof -
  let ?Q = "\<lambda>s r. (\<exists>e. scanDevices s 0 = Inl e \<and> r = Inl e)
     \<or> (\<exists>n s'. scanDevices s 0 = Inr (Some n, s') \<and> r = Inr (int n, s'))"
  have "?Q s r"
  proof (rule allocateLoop.raw_induct [where P = ?Q, OF _ assms])
    fix loop :: "GPUResourceManager \<Rightarrow> (error + (int \<times> GPUResourceManager)) option"
    fix s r
    assume IH: "\<And>x y. loop x = Some y \<Longrightarrow> ?Q x y"
    assume step: "(case scanDevices s 0 of
        Inl e \<Rightarrow> Some (Inl e)
      | Inr r \<Rightarrow>
          (case fst r of
             None \<Rightarrow> loop (snd r)
           | Some n \<Rightarrow> Some (Inr (int n, snd r)))) = Some r"
    show "?Q s r"
    proof (cases "scanDevices s 0")
      case (Inl e)
      with step show ?thesis by simp
    next
      case (Inr p)
      obtain d s' where p: "p = (d, s')" by (cases p)
      show ?thesis
      proof (cases d)
        case None
        with Inr p have "s' = s" using scanDevices_miss by blast
        with None Inr p step have "loop s = Some r" by simp
        then show ?thesis by (rule IH)
      next
        case (Some n)
        with Inr p step show ?thesis by auto
      qed
    qed
  qed
  then show ?thesis .
qed

lemma allocateLoop_finds:
  assumes "int k < numDevices s" "k < length (busyDevices s)" "\<not> busyDevices s ! k"
  shows "\<exists>j. allocateLoop s = Some (Inr (int j, s\<lparr>busyDevices := (busyDevices s)[j := True]\<rparr>)) \<and> j \<le> k"
proof -
  from scanDevices_finds [of 0 k s] assms obtain j where
    "scanDevices s 0 = Inr (Some j, s\<lparr>busyDevices := (busyDevices s)[j := True]\<rparr>)" "j \<le> k"
    by auto
  then show ?thesis
    by (subst allocateLoop.simps) simp
qed

section \<open>The device pool: allocation and release\<close>

text \<open>
  C10. Whenever a device of the pool is free, \<^verbatim>\<open>allocateDevice\<close> returns, and what it
  returns is the lowest-numbered free device: the flag of the returned id \<open>n\<close> was false
  and the flag of every \<open>m < n\<close> was true in the pool the scan read. The pool it leaves
  differs from that one in the flag of \<open>n\<close> alone, which is now true.
\<close>

theorem allocateDevice_lowest_free:
  assumes "int k < numDevices s" "k < length (busyDevices s)" "\<not> busyDevices s ! k"
  shows "\<exists>n. allocateDevice s = Some (Inr (int n, s\<lparr>busyDevices := (busyDevices s)[n := True]\<rparr>))
           \<and> n \<le> k \<and> \<not> busyDevices s ! n \<and> (\<forall>m<n. busyDevices s ! m)"
proof -
  from scanDevices_finds [of 0 k s] assms obtain j where
    j: "scanDevices s 0 = Inr (Some j, s\<lparr>busyDevices := (busyDevices s)[j := True]\<rparr>)" "j \<le> k"
    by auto
  from scanDevices_hit [OF j(1)] have "\<not> busyDevices s ! j" "\<forall>m<j. busyDevices s ! m"
    by auto
  moreover from assms have "0 < numDevices s" by simp
  then have "allocateDevice s = Some (Inr (int j, s\<lparr>busyDevices := (busyDevices s)[j := True]\<rparr>))"
    using j(1) by (simp add: allocateDevice_def) (subst allocateLoop.simps, simp)
  ultimately show ?thesis using j(2) by blast
qed

theorem allocateDevice_lowest_free_witness:
  "allocateDevice \<lparr>numDevices = 3, busyDevices = [True, False, False]\<rparr>
     = Some (Inr (1, \<lparr>numDevices = 3, busyDevices = [True, True, False]\<rparr>))"
proof -
  let ?s = "\<lparr>numDevices = 3, busyDevices = [True, False, False]\<rparr>"
  have "int 2 < numDevices ?s" "2 < length (busyDevices ?s)" "\<not> busyDevices ?s ! 2"
    by simp_all
  from allocateDevice_lowest_free [OF this] obtain n where
    n: "allocateDevice ?s = Some (Inr (int n, ?s\<lparr>busyDevices := (busyDevices ?s)[n := True]\<rparr>))"
       "n \<le> 2" "\<not> busyDevices ?s ! n" "\<forall>m<n. busyDevices ?s ! m"
    by blast
  have "n = 1"
  proof (rule ccontr)
    assume "n \<noteq> 1"
    with n(2) have "n = 0 \<or> n = 2" by arith
    moreover from n(3) have "n \<noteq> 0" by (cases n) auto
    moreover from n(4) have "1 < n \<longrightarrow> busyDevices ?s ! 1" by blast
    then have "n \<noteq> 2" by auto
    ultimately show False by simp
  qed
  with n(1) show ?thesis by simp
qed

lemma tableSized_no_fault: "tableSized s \<Longrightarrow> scanDevices s 0 \<noteq> Inl e"
  using scanDevices_fault [of s 0 e] by (auto simp: tableSized_def)

text \<open>
  C6. On a pool whose table holds one flag per device, \<^verbatim>\<open>allocateDevice\<close> ends the
  process exactly when the pool size is zero, and then with the diagnostic of its
  assertion. When the pool size is positive and some device is free, it returns an id
  in \<open>[0, numDevices)\<close> whose flag was false, and that flag is true in the pool it leaves.
\<close>

theorem allocateDevice_fails_iff_empty:
  assumes "tableSized s"
  shows "((\<exists>e. allocateDevice s = Some (Inl e)) \<longleftrightarrow> numDevices s = 0)
       \<and> (numDevices s = 0 \<longrightarrow> allocateDevice s = Some (Inl NoDevicesAvailable))
       \<and> (\<forall>k. 0 < numDevices s \<and> k < length (busyDevices s) \<and> \<not> busyDevices s ! k \<longrightarrow>
            (\<exists>n s'. allocateDevice s = Some (Inr (n, s')) \<and> 0 \<le> n \<and> n < numDevices s
               \<and> \<not> busyDevices s ! nat n \<and> busyDevices s' ! nat n))"
proof (intro conjI allI impI)
  show "(\<exists>e. allocateDevice s = Some (Inl e)) \<longleftrightarrow> numDevices s = 0"
  proof
    assume "\<exists>e. allocateDevice s = Some (Inl e)"
    then obtain e where e: "allocateDevice s = Some (Inl e)" ..
    show "numDevices s = 0"
    proof (rule ccontr)
      assume nz: "numDevices s \<noteq> 0"
      from assms have "0 \<le> numDevices s" by (auto simp: tableSized_def)
      with nz have "0 < numDevices s" by simp
      with e have "allocateLoop s = Some (Inl e)" by (simp add: allocateDevice_def)
      from allocateLoop_result [OF this] have "scanDevices s 0 = Inl e" by auto
      with tableSized_no_fault [OF assms, of e] show False by simp
    qed
  next
    assume "numDevices s = 0"
    then show "\<exists>e. allocateDevice s = Some (Inl e)" by (simp add: allocateDevice_def)
  qed
next
  assume "numDevices s = 0"
  then show "allocateDevice s = Some (Inl NoDevicesAvailable)" by (simp add: allocateDevice_def)
next
  fix k
  assume k: "0 < numDevices s \<and> k < length (busyDevices s) \<and> \<not> busyDevices s ! k"
  with assms have "int k < numDevices s" by (auto simp: tableSized_def)
  with k scanDevices_finds [of 0 k s] obtain j where
    j: "scanDevices s 0 = Inr (Some j, s\<lparr>busyDevices := (busyDevices s)[j := True]\<rparr>)" "j \<le> k"
    by auto
  let ?s' = "s\<lparr>busyDevices := (busyDevices s)[j := True]\<rparr>"
  from scanDevices_hit [OF j(1)] have h: "int j < numDevices s" "j < length (busyDevices s)"
    "\<not> busyDevices s ! j" by auto
  from k j(1) have "allocateDevice s = Some (Inr (int j, ?s'))"
    by (simp add: allocateDevice_def) (subst allocateLoop.simps, simp)
  moreover from h have "busyDevices ?s' ! nat (int j)" by simp
  ultimately show "\<exists>n s'. allocateDevice s = Some (Inr (n, s')) \<and> 0 \<le> n \<and> n < numDevices s
               \<and> \<not> busyDevices s ! nat n \<and> busyDevices s' ! nat n"
    using h by (intro exI [of _ "int j"] exI [of _ ?s']) simp
qed

theorem allocateDevice_fails_iff_empty_witness:
  "tableSized \<lparr>numDevices = 0, busyDevices = []\<rparr>
   \<and> allocateDevice \<lparr>numDevices = 0, busyDevices = []\<rparr> = Some (Inl NoDevicesAvailable)
   \<and> tableSized \<lparr>numDevices = 2, busyDevices = [True, False]\<rparr>
   \<and> (\<exists>n s'. allocateDevice \<lparr>numDevices = 2, busyDevices = [True, False]\<rparr> = Some (Inr (n, s'))
        \<and> 0 \<le> n \<and> n < 2 \<and> busyDevices s' ! nat n)"
proof -
  let ?e = "\<lparr>numDevices = 0, busyDevices = []\<rparr>"
  let ?s = "\<lparr>numDevices = 2, busyDevices = [True, False]\<rparr>"
  have e: "tableSized ?e" and s: "tableSized ?s" by (simp_all add: tableSized_def)
  have "0 < numDevices ?s \<and> 1 < length (busyDevices ?s) \<and> \<not> busyDevices ?s ! 1" by simp
  with allocateDevice_fails_iff_empty [OF s] have
    "\<exists>n s'. allocateDevice ?s = Some (Inr (n, s')) \<and> 0 \<le> n \<and> n < numDevices ?s
               \<and> \<not> busyDevices ?s ! nat n \<and> busyDevices s' ! nat n" by blast
  moreover from allocateDevice_fails_iff_empty [OF e]
  have "allocateDevice ?e = Some (Inl NoDevicesAvailable)" by simp
  ultimately show ?thesis using e s by auto
qed

text \<open>
  With every device busy and no other caller to release one, the loop polls forever:
  the call neither fails nor returns.
\<close>

lemma allocateDevice_polls_forever:
  assumes "tableSized s" "0 < numDevices s" "\<forall>k<length (busyDevices s). busyDevices s ! k"
  shows "allocateDevice s = None"
proof (cases "allocateDevice s")
  case None
  then show ?thesis .
next
  case (Some r)
  with assms(2) have "allocateLoop s = Some r" by (simp add: allocateDevice_def)
  from allocateLoop_result [OF this] show ?thesis
  proof
    assume "\<exists>e. scanDevices s 0 = Inl e \<and> r = Inl e"
    with tableSized_no_fault [OF assms(1)] show ?thesis by blast
  next
    assume "\<exists>n s'. scanDevices s 0 = Inr (Some n, s') \<and> r = Inr (int n, s')"
    then obtain n s' where "scanDevices s 0 = Inr (Some n, s')" by blast
    from scanDevices_hit [OF this] assms(3) show ?thesis by blast
  qed
qed

text \<open>
  C8. For every device id of the pool, \<^verbatim>\<open>freeDevice\<close> returns, the flag of that device
  is false afterwards, the flag of every other device is what it was, and the table
  size and \<^verbatim>\<open>numDevices\<close> are unchanged.
\<close>

theorem freeDevice_frame:
  assumes "tableSized s" "0 \<le> device" "device < numDevices s"
  shows "\<exists>s'. freeDevice s device = Inr s'
           \<and> \<not> busyDevices s' ! nat device
           \<and> (\<forall>m. m \<noteq> nat device \<longrightarrow> busyDevices s' ! m = busyDevices s ! m)
           \<and> length (busyDevices s') = length (busyDevices s)
           \<and> numDevices s' = numDevices s"
proof -
  from assms have "nat device < length (busyDevices s)" by (auto simp: tableSized_def)
  with assms(2) show ?thesis by (simp add: freeDevice_def)
qed

theorem freeDevice_frame_witness:
  "freeDevice \<lparr>numDevices = 3, busyDevices = [True, True, False]\<rparr> 1
     = Inr \<lparr>numDevices = 3, busyDevices = [True, False, False]\<rparr>
   \<and> (\<exists>s'. freeDevice \<lparr>numDevices = 3, busyDevices = [True, True, False]\<rparr> 1 = Inr s'
        \<and> \<not> busyDevices s' ! 1 \<and> busyDevices s' ! 0 \<and> numDevices s' = 3)"
proof -
  let ?s = "\<lparr>numDevices = 3, busyDevices = [True, True, False]\<rparr>"
  have "tableSized ?s" "(0::int) \<le> 1" "1 < numDevices ?s" by (simp_all add: tableSized_def)
  from freeDevice_frame [OF this] obtain s' where
    s': "freeDevice ?s 1 = Inr s'" "\<not> busyDevices s' ! nat 1"
        "\<forall>m. m \<noteq> nat 1 \<longrightarrow> busyDevices s' ! m = busyDevices ?s ! m" "numDevices s' = numDevices ?s"
    by blast
  from s'(3) have "busyDevices s' ! 0 = busyDevices ?s ! 0" by simp
  with s' show ?thesis by (simp add: freeDevice_def)
qed

section \<open>The device pool: callers sharing it\<close>

lemma leaseInv_start: "leaseInv K (createDeviceTable K, [])"
  by (simp add: leaseInv_def createDeviceTable_def)

lemma leaseInv_taken:
  assumes "leaseInv K (s, ls)" "scanDevices s 0 = Inr (Some n, s')"
  shows "leaseInv K (s', (caller, int n) # ls)"
proof -
  from scanDevices_hit [OF assms(2)] have n: "n < length (busyDevices s)" "\<not> busyDevices s ! n"
    and s': "s' = s\<lparr>busyDevices := (busyDevices s)[n := True]\<rparr>" by auto
  from assms(1) have inv: "numDevices s = int K" "length (busyDevices s) = K" "distinct (map snd ls)"
    "\<forall>d<K. busyDevices s ! d \<longleftrightarrow> int d \<in> snd ` set ls"
    "\<forall>d \<in> snd ` set ls. 0 \<le> d \<and> d < int K"
    by (auto simp: leaseInv_def)
  from n inv(2,4) have fresh: "int n \<notin> snd ` set ls" by auto
  have flags: "(busyDevices s)[n := True] ! d \<longleftrightarrow> int d \<in> snd ` set ((caller, int n) # ls)"
    if "d < K" for d
    using that inv(2,4) n by (cases "d = n") auto
  from n inv fresh flags show ?thesis
    unfolding leaseInv_def s' by auto
qed

lemma leaseInv_released:
  assumes "leaseInv K (s, ls)" "(caller, device) \<in> set ls" "freeDevice s device = Inr s'"
  shows "leaseInv K (s', remove1 (caller, device) ls)"
proof -
  from assms(1) have inv: "numDevices s = int K" "length (busyDevices s) = K" "distinct (map snd ls)"
    "\<forall>d<K. busyDevices s ! d \<longleftrightarrow> int d \<in> snd ` set ls"
    "\<forall>d \<in> snd ` set ls. 0 \<le> d \<and> d < int K"
    by (auto simp: leaseInv_def)
  from assms(3) have d: "0 \<le> device" "nat device < length (busyDevices s)"
    and s': "s' = s\<lparr>busyDevices := (busyDevices s)[nat device := False]\<rparr>"
    by (auto simp: freeDevice_def split: if_splits)
  from inv(3) have dl: "distinct ls" and inj: "inj_on snd (set ls)"
    by (simp_all add: distinct_map)
  have only: "c = caller" if "(c, device) \<in> set ls" for c
  proof -
    from inj that assms(2) have "(c, device) = (caller, device)"
      by (intro inj_onD [of snd "set ls"]) simp_all
    then show ?thesis by simp
  qed
  have sr: "set (remove1 (caller, device) ls) = set ls - {(caller, device)}"
    using dl by simp
  have rest: "snd ` set (remove1 (caller, device) ls) = snd ` set ls - {device}"
  proof (rule set_eqI)
    fix e
    show "e \<in> snd ` set (remove1 (caller, device) ls) \<longleftrightarrow> e \<in> snd ` set ls - {device}"
    proof
      assume "e \<in> snd ` set (remove1 (caller, device) ls)"
      then obtain c where c: "(c, e) \<in> set ls" "(c, e) \<noteq> (caller, device)"
        unfolding sr by force
      with only have "e \<noteq> device" by blast
      with c(1) show "e \<in> snd ` set ls - {device}" by force
    next
      assume "e \<in> snd ` set ls - {device}"
      then obtain c where "(c, e) \<in> set ls" "e \<noteq> device" by force
      then have "(c, e) \<in> set ls - {(caller, device)}" by simp
      then show "e \<in> snd ` set (remove1 (caller, device) ls)"
        unfolding sr by force
    qed
  qed
  have dist: "distinct (map snd (remove1 (caller, device) ls))"
  proof -
    have "inj_on snd (set (remove1 (caller, device) ls))"
      using inj unfolding sr by (rule inj_on_subset) blast
    with dl show ?thesis by (simp add: distinct_map)
  qed
  have flags: "(busyDevices s)[nat device := False] ! e \<longleftrightarrow> int e \<in> snd ` set ls - {device}"
    if "e < K" for e
  proof (cases "e = nat device")
    case True
    with d show ?thesis by simp
  next
    case False
    with d(1) have "int e \<noteq> device" by auto
    with False that inv(4) show ?thesis by simp
  qed
  let ?ls' = "remove1 (caller, device) ls"
  have flags': "\<forall>e<K. (busyDevices s)[nat device := False] ! e \<longleftrightarrow> int e \<in> snd ` set ?ls'"
    using flags unfolding rest by blast
  have bound: "\<forall>d \<in> snd ` set ?ls'. 0 \<le> d \<and> d < int K"
    using inv(5) unfolding rest by blast
  have "numDevices s' = int K" "length (busyDevices s') = K"
    "\<forall>e<K. busyDevices s' ! e \<longleftrightarrow> int e \<in> snd ` set ?ls'"
    using inv(1,2) flags' unfolding s' by simp_all
  with dist bound show ?thesis
    unfolding leaseInv_def by simp
qed

lemma reachable_leaseInv: "reachable K c \<Longrightarrow> leaseInv K c"
proof (induction rule: reachable.induct)
  case start
  show ?case by (rule leaseInv_start)
next
  case (taken s ls n s' caller)
  then show ?case by (auto intro: leaseInv_taken)
next
  case (polled s ls s')
  from scanDevices_miss [OF polled.hyps(3)] have "s' = s" by simp
  with polled.IH show ?case by simp
next
  case (released s ls caller device s')
  then show ?case by (auto intro: leaseInv_released)
qed

text \<open>
  C5. The pool never hands a device out twice. In every configuration that callers can
  reach through locked sections, where a device is released only by the caller that
  holds it, no device id occurs in two leases, every leased device is a device of the
  pool with its flag set, a pass of the scan takes only a device whose flag was false
  and that nobody holds, and sets the flag in the same pass. While fewer than \<open>K\<close>
  leases are outstanding on a pool of size \<open>K\<close> the next pass takes a device, and when
  \<open>K\<close> are outstanding their ids are the \<open>K\<close> distinct ids of the pool.
\<close>

theorem no_double_allocation:
  assumes "reachable K (s, ls)"
  shows "distinct (map snd ls)
       \<and> (\<forall>d \<in> snd ` set ls. 0 \<le> d \<and> d < int K \<and> busyDevices s ! nat d)
       \<and> (\<forall>n s'. scanDevices s 0 = Inr (Some n, s') \<longrightarrow>
             \<not> busyDevices s ! n \<and> busyDevices s' ! n \<and> int n \<notin> snd ` set ls)
       \<and> (length ls < K \<longrightarrow> (\<exists>n s'. scanDevices s 0 = Inr (Some n, s')))
       \<and> (length ls = K \<longrightarrow> snd ` set ls = {0..<int K})"
proof -
  from reachable_leaseInv [OF assms] have inv: "numDevices s = int K" "length (busyDevices s) = K"
    "distinct (map snd ls)"
    "\<forall>d<K. busyDevices s ! d \<longleftrightarrow> int d \<in> snd ` set ls"
    "\<forall>d \<in> snd ` set ls. 0 \<le> d \<and> d < int K"
    by (auto simp: leaseInv_def)
  have held: "0 \<le> d \<and> d < int K \<and> busyDevices s ! nat d" if "d \<in> snd ` set ls" for d
  proof -
    from that inv(5) have r: "0 \<le> d" "d < int K" by auto
    then have "nat d < K" by simp
    with inv(4) that r show ?thesis by simp
  qed
  have scan: "\<not> busyDevices s ! n \<and> busyDevices s' ! n \<and> int n \<notin> snd ` set ls"
    if "scanDevices s 0 = Inr (Some n, s')" for n s'
  proof -
    from scanDevices_hit [OF that] have n: "n < length (busyDevices s)" "\<not> busyDevices s ! n"
      and s': "s' = s\<lparr>busyDevices := (busyDevices s)[n := True]\<rparr>" by auto
    from n inv(2,4) have "int n \<notin> snd ` set ls" by auto
    with n show ?thesis unfolding s' by simp
  qed
  have full: "snd ` set ls = {0..<int K}" if "length ls = K"
  proof -
    have sub: "snd ` set ls \<subseteq> {0..<int K}" using inv(5) by auto
    have "card (snd ` set ls) = length ls"
      using inv(3) by (metis distinct_card length_map set_map)
    with that have "card (snd ` set ls) = card {0..<int K}" by simp
    with sub show ?thesis by (simp add: card_subset_eq)
  qed
  have cardl: "card (snd ` set ls) = length ls"
    using inv(3) by (metis distinct_card length_map set_map)
  have progress: "\<exists>n s'. scanDevices s 0 = Inr (Some n, s')" if "length ls < K"
  proof -
    have "\<exists>d<K. int d \<notin> snd ` set ls"
    proof (rule ccontr)
      assume "\<not> (\<exists>d<K. int d \<notin> snd ` set ls)"
      then have "int ` {0..<K} \<subseteq> snd ` set ls" by auto
      then have "card (int ` {0..<K}) \<le> card (snd ` set ls)"
        by (intro card_mono) simp_all
      moreover have "card (int ` {0..<K}) = K"
        by (simp add: card_image)
      ultimately show False using cardl that by simp
    qed
    then obtain d where d: "d < K" "int d \<notin> snd ` set ls" by blast
    with inv(4) have "\<not> busyDevices s ! d" by simp
    with d(1) inv(1,2) scanDevices_finds [of 0 d s] show ?thesis by auto
  qed
  from inv(3) held scan progress full show ?thesis by blast
qed

theorem no_double_allocation_witness:
  "reachable 2 (\<lparr>numDevices = 2, busyDevices = [True, True]\<rparr>, [(9, 1), (7, 0)])
   \<and> distinct (map snd [(9::nat, 1::int), (7, 0)])
   \<and> snd ` set [(9::nat, 1::int), (7, 0)] = {0..<2}"
proof -
  have s0: "createDeviceTable 2 = \<lparr>numDevices = 2, busyDevices = [False, False]\<rparr>"
    by (simp add: createDeviceTable_def numeral_2_eq_2)
  have r0: "reachable 2 (\<lparr>numDevices = 2, busyDevices = [False, False]\<rparr>, [])"
    using reachable.start [of 2] by (simp only: s0)
  have sc0: "scanDevices \<lparr>numDevices = 2, busyDevices = [False, False]\<rparr> 0
      = Inr (Some 0, \<lparr>numDevices = 2, busyDevices = [True, False]\<rparr>)"
    by (simp add: scanDevices.simps)
  have r1: "reachable 2 (\<lparr>numDevices = 2, busyDevices = [True, False]\<rparr>, [(7, int 0)])"
    by (rule reachable.taken [OF r0 _ sc0]) simp
  have sc1: "scanDevices \<lparr>numDevices = 2, busyDevices = [True, False]\<rparr> 0
      = Inr (Some 1, \<lparr>numDevices = 2, busyDevices = [True, True]\<rparr>)"
    by (simp add: scanDevices.simps)
  have "reachable 2 (\<lparr>numDevices = 2, busyDevices = [True, True]\<rparr>, [(9, int 1), (7, int 0)])"
    by (rule reachable.taken [OF r1 _ sc1]) simp
  then have r: "reachable 2 (\<lparr>numDevices = 2, busyDevices = [True, True]\<rparr>, [(9, 1), (7, 0)])"
    by simp
  from no_double_allocation [OF r] have "distinct (map snd [(9::nat, 1::int), (7, 0)])"
    and "length [(9::nat, 1::int), (7, 0)] = 2 \<longrightarrow> snd ` set [(9::nat, 1::int), (7, 0)] = {0..<int 2}"
    by blast+
  with r show ?thesis by simp
qed

section \<open>The vertex: what the loops can return\<close>

text \<open>The equations that evaluate the vertex code on concrete data.\<close>

lemmas example_defs = exampleIndex_def exampleSusceptibility_def exampleLeftA_def
  exampleLeftB_def exampleLeftSmall_def exampleRight_def exampleRightSmall_def exampleSolver_def

lemmas vertex_defs = calculateSelfEnergyVertex_def numEnergiesOf_def
  calculateSelfEnergyVertexMainAlgorithm_def Let_def operatorSubindices_def firstSubindex_def
  getCreationOperatorIndex_def getAnnihilationOperatorIndex_def at_checked_def negligible_def
  getOffset_def energyLoop.simps removeNegligible_def pairTerm_def

text \<open>A whole number of at most 53 bits is a binary64 value: rounding leaves it alone.\<close>

lemma roundToDouble_small: "\<bar>x\<bar> < 2 ^ 53 \<Longrightarrow> roundToDouble x = x"
proof -
  assume "\<bar>x\<bar> < 2 ^ 53"
  then have "nat \<bar>x\<bar> < 2 ^ 53" by (simp add: nat_less_iff)
  then have "excessBits (nat \<bar>x\<bar>) = 0"
    by (subst excessBits.simps) simp
  then show ?thesis
    by (simp add: roundToDouble_def Let_def mult_sgn_abs)
qed

lemmas integerDoubles_defs = integerDoubles_def roundToDouble_small

lemma energyLoop_length:
  "energyLoop A v ai ao d off m n = Inr v' \<Longrightarrow> length v' = length v"
proof (induction A v ai ao d off m n rule: energyLoop.induct)
  case (1 A v ai ao d off m n)
  show ?case
  proof (cases "n < length v \<and> off + n < length d")
    case True
    with "1.prems" have "energyLoop A (v[n := cplus A (v ! n) (pairTerm A ai ao (d ! (off + n)) m)])
        ai ao d off m (Suc n) = Inr v'"
      by (subst (asm) energyLoop.simps) simp
    with True "1.IH" show ?thesis by simp
  next
    case False
    with "1.prems" show ?thesis
      by (subst (asm) energyLoop.simps) (auto split: if_splits)
  qed
qed

lemma energyLoop_error:
  "energyLoop A v ai ao d off m n = Inl e \<Longrightarrow> e = InvalidMemoryAccess"
proof (induction A v ai ao d off m n rule: energyLoop.induct)
  case (1 A v ai ao d off m n)
  show ?case
  proof (cases "n < length v \<and> off + n < length d")
    case True
    with "1.prems" have "energyLoop A (v[n := cplus A (v ! n) (pairTerm A ai ao (d ! (off + n)) m)])
        ai ao d off m (Suc n) = Inl e"
      by (subst (asm) energyLoop.simps) simp
    with True "1.IH" show ?thesis by simp
  next
    case False
    with "1.prems" show ?thesis
      by (subst (asm) energyLoop.simps) (auto split: if_splits)
  qed
qed
lemma at_checked_error: "at_checked xs n = Inl e \<Longrightarrow> e = OutOfRange"
  by (simp add: at_checked_def split: if_splits)

lemma firstSubindex_error: "firstSubindex r = Inl e \<Longrightarrow> r = Inl e \<or> e = OutOfRange"
  by (auto simp: firstSubindex_def split: sum.splits dest: at_checked_error)

lemma operatorSubindices_error: "operatorSubindices u = Inl e \<Longrightarrow> e = OutOfRange"
  by (auto simp: operatorSubindices_def getCreationOperatorIndex_def
      getAnnihilationOperatorIndex_def split: sum.splits
      dest!: firstSubindex_error dest: at_checked_error)

lemma getOffset_error: "getOffset S i = Inl e \<Longrightarrow> e = IndexNotIncluded"
  by (simp add: getOffset_def split: option.splits)

lemma rightLoop_length:
  "rightLoop A sep k ib S m ai c1 a0 v us = Inr v' \<Longrightarrow> length v' = length v"
proof (induction us arbitrary: v)
  case Nil
  then show ?case by simp
next
  case (Cons u us)
  then show ?case
    by (auto split: sum.splits prod.splits if_splits dest: energyLoop_length)
qed

lemma rightLoop_error:
  "rightLoop A sep k ib S m ai c1 a0 v us = Inl e \<Longrightarrow>
     e = OutOfRange \<or> e = IndexNotIncluded \<or> e = InvalidMemoryAccess"
proof (induction us arbitrary: v)
  case Nil
  then show ?case by simp
next
  case (Cons u us)
  then show ?case
    by (auto split: sum.splits prod.splits if_splits
        dest: energyLoop_error operatorSubindices_error getOffset_error)
qed

lemma leftLoop_length:
  "leftLoop A sep k ib S m uR v us = Inr v' \<Longrightarrow> length v' = length v"
proof (induction us arbitrary: v)
  case Nil
  then show ?case by simp
next
  case (Cons u us)
  then show ?case
    by (auto split: sum.splits prod.splits if_splits dest: rightLoop_length)
qed

lemma leftLoop_error:
  "leftLoop A sep k ib S m uR v us = Inl e \<Longrightarrow>
     e = OutOfRange \<or> e = IndexNotIncluded \<or> e = InvalidMemoryAccess"
proof (induction us arbitrary: v)
  case Nil
  then show ?case by simp
next
  case (Cons u us)
  then show ?case
    by (auto split: sum.splits prod.splits if_splits
        dest: rightLoop_error operatorSubindices_error)
qed

section \<open>The vertex: arity and energy type\<close>

lemma assertSingleSubindex_None:
  "assertSingleSubindex cs n = None \<longleftrightarrow> (\<forall>c \<in> set cs. length c = 1)"
  by (induction cs arbitrary: n) auto

lemma assertSingleSubindex_Some:
  "assertSingleSubindex cs n = Some e \<Longrightarrow> isArityMismatch e"
  by (induction cs arbitrary: n) (auto split: if_splits)

lemma mainAlgorithm_length:
  "calculateSelfEnergyVertexMainAlgorithm A sep v index S uL uR m = Inr v' \<Longrightarrow> length v' = length v"
  by (auto simp: calculateSelfEnergyVertexMainAlgorithm_def Let_def
      split: if_splits option.splits dest: leftLoop_length)

lemma mainAlgorithm_error:
  "calculateSelfEnergyVertexMainAlgorithm A sep v index S uL uR m = Inl e \<Longrightarrow> e \<noteq> UnknownEnergyType"
proof
  assume r: "calculateSelfEnergyVertexMainAlgorithm A sep v index S uL uR m = Inl e"
    and e: "e = UnknownEnergyType"
  let ?c = "Index_split sep index"
  from r e have 5: "length ?c = 5"
    by (auto simp: calculateSelfEnergyVertexMainAlgorithm_def Let_def split: if_splits)
  show False
  proof (cases "assertSingleSubindex [?c ! 1, ?c ! 2, ?c ! 3, ?c ! 4] 0")
    case None
    with r 5 have "leftLoop A sep (?c ! 0) [?c ! 1, ?c ! 2, ?c ! 3, ?c ! 4] S m uR v uL = Inl e"
      by (simp add: calculateSelfEnergyVertexMainAlgorithm_def Let_def)
    from leftLoop_error [OF this] e show False by simp
  next
    case (Some e')
    with r 5 have "e' = e"
      by (simp add: calculateSelfEnergyVertexMainAlgorithm_def Let_def)
    with assertSingleSubindex_Some [OF Some] e show False by simp
  qed
qed

lemma mainAlgorithm_bad_arity:
  assumes "length (Index_split sep index) \<noteq> 5
      \<or> (\<exists>n \<in> {1, 2, 3, 4}. length (Index_split sep index ! n) \<noteq> 1)"
  shows "\<exists>e. calculateSelfEnergyVertexMainAlgorithm A sep v index S uLeft uRight m = Inl e
            \<and> isArityMismatch e"
proof (cases "length (Index_split sep index) = 5")
  case False
  then show ?thesis
    by (simp add: calculateSelfEnergyVertexMainAlgorithm_def Let_def)
next
  case True
  let ?c = "Index_split sep index"
  let ?ib = "[?c ! 1, ?c ! 2, ?c ! 3, ?c ! 4]"
  from True assms have "\<not> (\<forall>c \<in> set ?ib. length c = 1)" by auto
  then have "assertSingleSubindex ?ib 0 \<noteq> None"
    using assertSingleSubindex_None [of ?ib 0] by blast
  then obtain e where e: "assertSingleSubindex ?ib 0 = Some e" by auto
  from assertSingleSubindex_Some [OF e] e True show ?thesis
    by (simp add: calculateSelfEnergyVertexMainAlgorithm_def Let_def)
qed

text \<open>
  C1. The main algorithm, to which \<^verbatim>\<open>calculateSelfEnergyVertex\<close> passes its Index
  unchanged, ends the process with an arity diagnostic and returns no vector when the
  Index does not split into exactly 5 components, or when one of the last 4 components
  does not have exactly one subindex (more than one, or none);
  \<^verbatim>\<open>calculateSelfEnergyVertex\<close> then returns no vector either, whatever the solver
  holds. When the Index splits into exactly 5 components of which the last 4 have one
  subindex each, the checks pass: the call is the run of the two loops over the
  amplitude lists, and no failure of it is an arity diagnostic.
\<close>

theorem arity_checks:
  "(length (Index_split sep index) \<noteq> 5
      \<or> (\<exists>n \<in> {1, 2, 3, 4}. length (Index_split sep index ! n) \<noteq> 1) \<longrightarrow>
      (\<exists>e. calculateSelfEnergyVertexMainAlgorithm A sep v index S uLeft uRight m = Inl e
            \<and> isArityMismatch e)
      \<and> (\<exists>e. calculateSelfEnergyVertex A sep solver index = Inl e))
   \<and> (length (Index_split sep index) = 5
      \<and> (\<forall>n \<in> {1, 2, 3, 4}. length (Index_split sep index ! n) = 1) \<longrightarrow>
      calculateSelfEnergyVertexMainAlgorithm A sep v index S uLeft uRight m
        = leftLoop A sep (Index_split sep index ! 0)
            [Index_split sep index ! 1, Index_split sep index ! 2,
             Index_split sep index ! 3, Index_split sep index ! 4] S m uRight v uLeft
      \<and> (\<forall>e. calculateSelfEnergyVertexMainAlgorithm A sep v index S uLeft uRight m = Inl e
            \<longrightarrow> \<not> isArityMismatch e))"
proof (rule conjI; rule impI)
  assume bad: "length (Index_split sep index) \<noteq> 5
      \<or> (\<exists>n \<in> {1, 2, 3, 4}. length (Index_split sep index ! n) \<noteq> 1)"
  have "\<exists>e. calculateSelfEnergyVertex A sep solver index = Inl e"
  proof (cases "numEnergiesOf (susceptibility solver)")
    case (Inl e)
    then show ?thesis by (simp add: calculateSelfEnergyVertex_def)
  next
    case (Inr N)
    with mainAlgorithm_bad_arity [OF bad, where A = A and v = "replicate N (czero A)"
        and S = "susceptibility solver" and uLeft = "leftInteraction solver"
        and uRight = "rightInteraction solver" and m = "multiplier solver"]
    show ?thesis by (auto simp: calculateSelfEnergyVertex_def)
  qed
  with mainAlgorithm_bad_arity [OF bad, where A = A and v = v and S = S and uLeft = uLeft
      and uRight = uRight and m = m]
  show "(\<exists>e. calculateSelfEnergyVertexMainAlgorithm A sep v index S uLeft uRight m = Inl e
            \<and> isArityMismatch e)
      \<and> (\<exists>e. calculateSelfEnergyVertex A sep solver index = Inl e)" by blast
next
  let ?c = "Index_split sep index"
  let ?ib = "[?c ! 1, ?c ! 2, ?c ! 3, ?c ! 4]"
  assume good: "length ?c = 5 \<and> (\<forall>n \<in> {1, 2, 3, 4}. length (?c ! n) = 1)"
  then have "\<forall>c \<in> set ?ib. length c = 1" by simp
  then have "assertSingleSubindex ?ib 0 = None"
    using assertSingleSubindex_None [of ?ib 0] by blast
  with good have run: "calculateSelfEnergyVertexMainAlgorithm A sep v index S uLeft uRight m
        = leftLoop A sep (?c ! 0) ?ib S m uRight v uLeft"
    by (simp add: calculateSelfEnergyVertexMainAlgorithm_def Let_def)
  have "\<not> isArityMismatch e"
    if "calculateSelfEnergyVertexMainAlgorithm A sep v index S uLeft uRight m = Inl e" for e
    using leftLoop_error [of A sep "?c ! 0" ?ib S m uRight v uLeft e] that run by auto
  with run show "calculateSelfEnergyVertexMainAlgorithm A sep v index S uLeft uRight m
        = leftLoop A sep (?c ! 0) ?ib S m uRight v uLeft
      \<and> (\<forall>e. calculateSelfEnergyVertexMainAlgorithm A sep v index S uLeft uRight m = Inl e
            \<longrightarrow> \<not> isArityMismatch e)" by blast
qed

theorem arity_checks_witness:
  "length (Index_split (-1) [0, -1, 1]) \<noteq> 5
   \<and> (\<exists>e. calculateSelfEnergyVertexMainAlgorithm integerDoubles (-1) [0, 0] [0, -1, 1] exampleSusceptibility
             [exampleLeftA] [exampleRight] 1 = Inl e \<and> isArityMismatch e)
   \<and> length (Index_split (-1) exampleIndex) = 5
   \<and> map length (Index_split (-1) exampleIndex) = [1, 1, 1, 1, 1]
   \<and> calculateSelfEnergyVertexMainAlgorithm integerDoubles (-1) [0, 0] exampleIndex exampleSusceptibility
        [exampleLeftA] [exampleRight] 1 = Inr [6, 12]"
proof -
  have bad: "length (Index_split (-1) [0, -1, 1]) \<noteq> 5" by simp
  have good: "length (Index_split (-1) exampleIndex) = 5
      \<and> (\<forall>n \<in> {1, 2, 3, 4}. length (Index_split (-1) exampleIndex ! n) = 1)"
    by (simp add: exampleIndex_def)
  from bad arity_checks [where A = integerDoubles and sep = "-1" and index = "[0, -1, 1]"
      and v = "[0, 0]" and S = exampleSusceptibility and uLeft = "[exampleLeftA]"
      and uRight = "[exampleRight]" and m = 1]
  have 1: "\<exists>e. calculateSelfEnergyVertexMainAlgorithm integerDoubles (-1) [0, 0] [0, -1, 1] exampleSusceptibility
             [exampleLeftA] [exampleRight] 1 = Inl e \<and> isArityMismatch e" by blast
  from good arity_checks [where A = integerDoubles and sep = "-1" and index = exampleIndex
      and v = "[0, 0]" and S = exampleSusceptibility and uLeft = "[exampleLeftA]"
      and uRight = "[exampleRight]" and m = 1]
  have "calculateSelfEnergyVertexMainAlgorithm integerDoubles (-1) [0, 0] exampleIndex exampleSusceptibility
        [exampleLeftA] [exampleRight] 1
      = leftLoop integerDoubles (-1) (Index_split (-1) exampleIndex ! 0)
          [Index_split (-1) exampleIndex ! 1, Index_split (-1) exampleIndex ! 2,
           Index_split (-1) exampleIndex ! 3, Index_split (-1) exampleIndex ! 4]
          exampleSusceptibility 1 [exampleRight] [0, 0] [exampleLeftA]" by blast
  also have "\<dots> = Inr [6, 12]"
    by (simp add: example_defs vertex_defs integerDoubles_defs)
  finally have 2: "calculateSelfEnergyVertexMainAlgorithm integerDoubles (-1) [0, 0] exampleIndex
      exampleSusceptibility [exampleLeftA] [exampleRight] 1 = Inr [6, 12]" .
  have "map length (Index_split (-1) exampleIndex) = [1, 1, 1, 1, 1]"
    by (simp add: exampleIndex_def)
  with bad good 1 2 show ?thesis by blast
qed

text \<open>
  C7. \<^verbatim>\<open>calculateSelfEnergyVertex\<close> on a susceptibility of energy type \<open>Real\<close> is the
  main algorithm run on \<^verbatim>\<open>getResolution()\<close> zeros, and every vector it returns has
  exactly that many entries; on the type \<open>BosonicMatsubara\<close> the same holds with
  \<^verbatim>\<open>getNumMatsubaraEnergies()\<close>; in both cases no failure is the energy-type
  diagnostic. On any other energy type the call ends the process with that
  diagnostic and returns nothing.
\<close>

theorem energy_type_dispatch:
  "(energyType (susceptibility solver) = RealEnergy \<longrightarrow>
      calculateSelfEnergyVertex A sep solver index
        = calculateSelfEnergyVertexMainAlgorithm A sep
            (replicate (resolution (susceptibility solver)) (czero A)) index
            (susceptibility solver)
            (leftInteraction solver) (rightInteraction solver) (multiplier solver)
      \<and> (\<forall>v. calculateSelfEnergyVertex A sep solver index = Inr v \<longrightarrow>
            length v = resolution (susceptibility solver))
      \<and> calculateSelfEnergyVertex A sep solver index \<noteq> Inl UnknownEnergyType)
   \<and> (energyType (susceptibility solver) = BosonicMatsubara \<longrightarrow>
      calculateSelfEnergyVertex A sep solver index
        = calculateSelfEnergyVertexMainAlgorithm A sep
            (replicate (numMatsubaraEnergies (susceptibility solver)) (czero A)) index
            (susceptibility solver)
            (leftInteraction solver) (rightInteraction solver) (multiplier solver)
      \<and> (\<forall>v. calculateSelfEnergyVertex A sep solver index = Inr v \<longrightarrow>
            length v = numMatsubaraEnergies (susceptibility solver))
      \<and> calculateSelfEnergyVertex A sep solver index \<noteq> Inl UnknownEnergyType)
   \<and> (energyType (susceptibility solver) \<noteq> RealEnergy
      \<and> energyType (susceptibility solver) \<noteq> BosonicMatsubara \<longrightarrow>
      calculateSelfEnergyVertex A sep solver index = Inl UnknownEnergyType)"
proof -
  let ?S = "susceptibility solver"
  let ?run = "\<lambda>N. calculateSelfEnergyVertexMainAlgorithm A sep (replicate N (czero A)) index ?S
            (leftInteraction solver) (rightInteraction solver) (multiplier solver)"
  have sized: "(\<forall>v. ?run N = Inr v \<longrightarrow> length v = N) \<and> ?run N \<noteq> Inl UnknownEnergyType" for N
    using mainAlgorithm_length [of A sep "replicate N (czero A)" index ?S]
      mainAlgorithm_error [of A sep "replicate N (czero A)" index ?S] by fastforce
  have real: "calculateSelfEnergyVertex A sep solver index = ?run (resolution ?S)"
    if "energyType ?S = RealEnergy"
    using that by (simp add: calculateSelfEnergyVertex_def numEnergiesOf_def)
  have bosonic: "calculateSelfEnergyVertex A sep solver index = ?run (numMatsubaraEnergies ?S)"
    if "energyType ?S = BosonicMatsubara"
    using that by (simp add: calculateSelfEnergyVertex_def numEnergiesOf_def)
  have other: "calculateSelfEnergyVertex A sep solver index = Inl UnknownEnergyType"
    if "energyType ?S \<noteq> RealEnergy \<and> energyType ?S \<noteq> BosonicMatsubara"
    using that by (cases "energyType ?S") (simp_all add: calculateSelfEnergyVertex_def numEnergiesOf_def)
  show ?thesis
  proof (intro conjI impI)
    assume t: "energyType ?S = RealEnergy"
    show "calculateSelfEnergyVertex A sep solver index = ?run (resolution ?S)"
      using real [OF t] .
    show "\<forall>v. calculateSelfEnergyVertex A sep solver index = Inr v \<longrightarrow> length v = resolution ?S"
      using sized [of "resolution ?S"] unfolding real [OF t] by blast
    show "calculateSelfEnergyVertex A sep solver index \<noteq> Inl UnknownEnergyType"
      using sized [of "resolution ?S"] unfolding real [OF t] by blast
  next
    assume t: "energyType ?S = BosonicMatsubara"
    show "calculateSelfEnergyVertex A sep solver index = ?run (numMatsubaraEnergies ?S)"
      using bosonic [OF t] .
    show "\<forall>v. calculateSelfEnergyVertex A sep solver index = Inr v \<longrightarrow>
        length v = numMatsubaraEnergies ?S"
      using sized [of "numMatsubaraEnergies ?S"] unfolding bosonic [OF t] by blast
    show "calculateSelfEnergyVertex A sep solver index \<noteq> Inl UnknownEnergyType"
      using sized [of "numMatsubaraEnergies ?S"] unfolding bosonic [OF t] by blast
  next
    assume "energyType ?S \<noteq> RealEnergy \<and> energyType ?S \<noteq> BosonicMatsubara"
    then show "calculateSelfEnergyVertex A sep solver index = Inl UnknownEnergyType"
      by (rule other)
  qed
qed

theorem energy_type_dispatch_witness:
  "energyType (susceptibility (exampleSolver :: (int, int) ElectronFluctuationVertex))
     = RealEnergy
   \<and> resolution (susceptibility (exampleSolver :: (int, int) ElectronFluctuationVertex)) = 2
   \<and> calculateSelfEnergyVertex integerDoubles (-1) exampleSolver exampleIndex = Inr [51, 72]
   \<and> calculateSelfEnergyVertex integerDoubles (-1)
       (exampleSolver\<lparr>susceptibility := exampleSusceptibility\<lparr>energyType := BosonicMatsubara\<rparr>\<rparr>)
       exampleIndex = Inr [51, 72, 93]
   \<and> calculateSelfEnergyVertex integerDoubles (-1)
       (exampleSolver\<lparr>susceptibility := exampleSusceptibility\<lparr>energyType := FermionicMatsubara\<rparr>\<rparr>)
       exampleIndex = Inl UnknownEnergyType"
proof -
  let ?E = "exampleSolver :: (int, int) ElectronFluctuationVertex"
  let ?B = "?E\<lparr>susceptibility := exampleSusceptibility\<lparr>energyType := BosonicMatsubara\<rparr>\<rparr>"
  let ?F = "?E\<lparr>susceptibility := exampleSusceptibility\<lparr>energyType := FermionicMatsubara\<rparr>\<rparr>"
  have t: "energyType (susceptibility ?E) = RealEnergy" "resolution (susceptibility ?E) = 2"
    by (simp_all add: example_defs)
  have tB: "energyType (susceptibility ?B) = BosonicMatsubara" by simp
  have tF: "energyType (susceptibility ?F) \<noteq> RealEnergy
      \<and> energyType (susceptibility ?F) \<noteq> BosonicMatsubara" by simp
  from t energy_type_dispatch [where solver = ?E and A = integerDoubles and sep = "-1"
      and index = exampleIndex]
  have "calculateSelfEnergyVertex integerDoubles (-1) ?E exampleIndex
      = calculateSelfEnergyVertexMainAlgorithm integerDoubles (-1)
            (replicate (resolution (susceptibility ?E)) (czero integerDoubles)) exampleIndex
            (susceptibility ?E) (leftInteraction ?E) (rightInteraction ?E) (multiplier ?E)"
    by blast
  also have "\<dots> = Inr [51, 72]"
    by (simp add: example_defs vertex_defs integerDoubles_defs numeral_2_eq_2)
  finally have 1: "calculateSelfEnergyVertex integerDoubles (-1) ?E exampleIndex = Inr [51, 72]" .
  from tB energy_type_dispatch [where solver = ?B and A = integerDoubles and sep = "-1"
      and index = exampleIndex]
  have "calculateSelfEnergyVertex integerDoubles (-1) ?B exampleIndex
      = calculateSelfEnergyVertexMainAlgorithm integerDoubles (-1)
            (replicate (numMatsubaraEnergies (susceptibility ?B)) (czero integerDoubles))
            exampleIndex
            (susceptibility ?B) (leftInteraction ?B) (rightInteraction ?B) (multiplier ?B)"
    by blast
  also have "\<dots> = Inr [51, 72, 93]"
    by (simp add: example_defs vertex_defs integerDoubles_defs numeral_3_eq_3)
  finally have 2: "calculateSelfEnergyVertex integerDoubles (-1) ?B exampleIndex
      = Inr [51, 72, 93]" .
  from tF energy_type_dispatch [where solver = ?F and A = integerDoubles and sep = "-1"
      and index = exampleIndex]
  have 3: "calculateSelfEnergyVertex integerDoubles (-1) ?F exampleIndex
      = Inl UnknownEnergyType" by blast
  from t 1 2 3 show ?thesis by blast
qed

section \<open>The vertex: amplitudes below the cutoff\<close>

lemma removeNegligible_simps [simp]:
  "removeNegligible A [] = []"
  "negligible A (amplitude u) \<Longrightarrow> removeNegligible A (u # us) = removeNegligible A us"
  "\<not> negligible A (amplitude u) \<Longrightarrow> removeNegligible A (u # us) = u # removeNegligible A us"
  by (simp_all add: removeNegligible_def)

lemma rightLoop_removeNegligible_Inr:
  "rightLoop A sep kI ib S m ai c1 a0 v us = Inr v' \<Longrightarrow>
   rightLoop A sep kI ib S m ai c1 a0 v (removeNegligible A us) = Inr v'"
proof (induction us arbitrary: v)
  case Nil
  then show ?case by simp
next
  case (Cons u us)
  show ?case
  proof (cases "negligible A (amplitude u)")
    case True
    with Cons.prems have "rightLoop A sep kI ib S m ai c1 a0 v us = Inr v'"
      by (simp split: sum.splits prod.splits)
    with True Cons.IH show ?thesis by simp
  next
    case False
    with Cons.prems Cons.IH show ?thesis
      by (auto split: sum.splits prod.splits if_splits)
  qed
qed

lemma rightLoop_removeNegligible_readable:
  "\<forall>u \<in> set us. \<not> isl (operatorSubindices u) \<Longrightarrow>
   rightLoop A sep kI ib S m ai c1 a0 v (removeNegligible A us)
     = rightLoop A sep kI ib S m ai c1 a0 v us"
proof (induction us arbitrary: v)
  case Nil
  show ?case by simp
next
  case (Cons u us)
  from Cons.prems obtain l where l: "operatorSubindices u = Inr l"
    by (cases "operatorSubindices u") auto
  from Cons.prems have IH: "rightLoop A sep kI ib S m ai c1 a0 w (removeNegligible A us)
     = rightLoop A sep kI ib S m ai c1 a0 w us" for w
    by (intro Cons.IH) simp
  show ?case
  proof (cases "negligible A (amplitude u)")
    case True
    with l IH show ?thesis by (simp split: prod.splits)
  next
    case False
    with l IH show ?thesis by (simp split: sum.splits prod.splits)
  qed
qed

lemma leftLoop_removeNegligible_Inr:
  "leftLoop A sep kI ib S m uR v us = Inr v' \<Longrightarrow>
   leftLoop A sep kI ib S m (removeNegligible A uR) v (removeNegligible A us) = Inr v'"
proof (induction us arbitrary: v)
  case Nil
  then show ?case by simp
next
  case (Cons u us)
  show ?case
  proof (cases "negligible A (amplitude u)")
    case True
    with Cons.prems have "leftLoop A sep kI ib S m uR v us = Inr v'"
      by (simp split: sum.splits prod.splits)
    with True Cons.IH show ?thesis by simp
  next
    case False
    with Cons.prems Cons.IH show ?thesis
      by (auto split: sum.splits prod.splits if_splits dest: rightLoop_removeNegligible_Inr)
  qed
qed

lemma leftLoop_removeNegligible_readable:
  assumes "\<forall>u \<in> set us. \<not> isl (operatorSubindices u)"
    and uR: "\<forall>u \<in> set uR. \<not> isl (operatorSubindices u)"
  shows "leftLoop A sep kI ib S m (removeNegligible A uR) v (removeNegligible A us)
     = leftLoop A sep kI ib S m uR v us"
  using assms(1)
proof (induction us arbitrary: v)
  case Nil
  show ?case by simp
next
  case (Cons u us)
  from Cons.prems obtain l where l: "operatorSubindices u = Inr l"
    by (cases "operatorSubindices u") auto
  from Cons.prems have IH: "leftLoop A sep kI ib S m (removeNegligible A uR) w (removeNegligible A us)
     = leftLoop A sep kI ib S m uR w us" for w
    by (intro Cons.IH) simp
  show ?case
  proof (cases "negligible A (amplitude u)")
    case True
    with l IH show ?thesis by (simp split: prod.splits)
  next
    case False
    with l IH show ?thesis
      by (simp add: rightLoop_removeNegligible_readable [OF uR] split: sum.splits prod.splits)
  qed
qed

text \<open>
  C2. An amplitude whose magnitude is below the cutoff \<open>1e-10\<close> contributes nothing,
  the magnitude and the cutoff being the two \<^verbatim>\<open>double\<close> values the code compares
  (what \<^verbatim>\<open>abs\<close> returns and what the literal denotes), in whatever arithmetic:
  whenever the main algorithm returns a vector, it returns the same vector on the two
  lists with every such amplitude removed; and when the four operator subindices of
  every amplitude can be read, as they can in the specification's data model, the two
  calls agree outright, a failure included.
\<close>

theorem negligible_amplitudes_skipped:
  "(\<forall>v'. calculateSelfEnergyVertexMainAlgorithm A sep v index S uLeft uRight m = Inr v' \<longrightarrow>
      calculateSelfEnergyVertexMainAlgorithm A sep v index S
        (removeNegligible A uLeft) (removeNegligible A uRight) m = Inr v')
   \<and> ((\<forall>u \<in> set uLeft \<union> set uRight. \<not> isl (operatorSubindices u)) \<longrightarrow>
      calculateSelfEnergyVertexMainAlgorithm A sep v index S
        (removeNegligible A uLeft) (removeNegligible A uRight) m
      = calculateSelfEnergyVertexMainAlgorithm A sep v index S uLeft uRight m)"
proof (intro conjI allI impI)
  fix v'
  assume "calculateSelfEnergyVertexMainAlgorithm A sep v index S uLeft uRight m = Inr v'"
  then show "calculateSelfEnergyVertexMainAlgorithm A sep v index S
        (removeNegligible A uLeft) (removeNegligible A uRight) m = Inr v'"
    by (auto simp: calculateSelfEnergyVertexMainAlgorithm_def Let_def
        split: if_splits option.splits intro: leftLoop_removeNegligible_Inr)
next
  assume "\<forall>u \<in> set uLeft \<union> set uRight. \<not> isl (operatorSubindices u)"
  then have "\<forall>u \<in> set uLeft. \<not> isl (operatorSubindices u)"
    "\<forall>u \<in> set uRight. \<not> isl (operatorSubindices u)" by auto
  then show "calculateSelfEnergyVertexMainAlgorithm A sep v index S
        (removeNegligible A uLeft) (removeNegligible A uRight) m
      = calculateSelfEnergyVertexMainAlgorithm A sep v index S uLeft uRight m"
    by (simp add: calculateSelfEnergyVertexMainAlgorithm_def Let_def
        leftLoop_removeNegligible_readable split: option.splits)
qed

theorem negligible_amplitudes_skipped_witness:
  "calculateSelfEnergyVertexMainAlgorithm integerDoubles (-1) [0, 0] exampleIndex exampleSusceptibility
     [exampleLeftA, exampleLeftSmall, exampleLeftB] [exampleRightSmall, exampleRight] 1
     = Inr [51, 72]
   \<and> removeNegligible integerDoubles [exampleLeftA, exampleLeftSmall, exampleLeftB] = [exampleLeftA, exampleLeftB]
   \<and> removeNegligible integerDoubles [exampleRightSmall, exampleRight] = [exampleRight]
   \<and> list_all (\<lambda>u. \<not> isl (operatorSubindices u))
         ([exampleLeftA, exampleLeftSmall, exampleLeftB, exampleRightSmall, exampleRight]
            :: int InteractionAmplitude list)
   \<and> calculateSelfEnergyVertexMainAlgorithm integerDoubles (-1) [0, 0] exampleIndex exampleSusceptibility
       [exampleLeftA, exampleLeftB] [exampleRight] 1 = Inr [51, 72]"
proof -
  let ?L = "[exampleLeftA, exampleLeftSmall, exampleLeftB] :: int InteractionAmplitude list"
  let ?R = "[exampleRightSmall, exampleRight] :: int InteractionAmplitude list"
  have full: "calculateSelfEnergyVertexMainAlgorithm integerDoubles (-1) [0, 0] exampleIndex exampleSusceptibility
     ?L ?R 1 = Inr [51, 72]"
    by (simp add: example_defs vertex_defs integerDoubles_defs)
  have L: "removeNegligible integerDoubles ?L = [exampleLeftA, exampleLeftB]"
    and R: "removeNegligible integerDoubles ?R = [exampleRight]"
    by (simp_all add: example_defs vertex_defs integerDoubles_defs)
  have readable: "\<forall>u \<in> set ?L \<union> set ?R. \<not> isl (operatorSubindices u)"
    by (simp add: example_defs vertex_defs integerDoubles_defs)
  from full negligible_amplitudes_skipped [of integerDoubles "-1" "[0, 0]" exampleIndex exampleSusceptibility ?L ?R 1]
  have "calculateSelfEnergyVertexMainAlgorithm integerDoubles (-1) [0, 0] exampleIndex exampleSusceptibility
     (removeNegligible integerDoubles ?L) (removeNegligible integerDoubles ?R) 1 = Inr [51, 72]" by blast
  moreover from readable
  negligible_amplitudes_skipped [of integerDoubles "-1" "[0, 0]" exampleIndex exampleSusceptibility ?L ?R 1]
  have "calculateSelfEnergyVertexMainAlgorithm integerDoubles (-1) [0, 0] exampleIndex exampleSusceptibility
     (removeNegligible integerDoubles ?L) (removeNegligible integerDoubles ?R) 1
     = calculateSelfEnergyVertexMainAlgorithm integerDoubles (-1) [0, 0] exampleIndex exampleSusceptibility
     ?L ?R 1" by blast
  moreover from readable have "list_all (\<lambda>u. \<not> isl (operatorSubindices u)) (?L @ ?R)"
    by (simp add: list_all_iff)
  ultimately show ?thesis using full L R by simp
qed

text \<open>
  The reads of the operator subindices come before the test against the cutoff. An
  amplitude below the cutoff that lacks an operator Index, which the specification's
  data model does not have, therefore ends the process, although nothing would have
  been added for it.
\<close>

lemma unreadable_amplitude_below_cutoff:
  "calculateSelfEnergyVertexMainAlgorithm integerDoubles (-1) [0, 0] exampleIndex exampleSusceptibility
     [exampleLeftSmall\<lparr>creationOperatorIndices := []\<rparr>] [] 1 = Inl OutOfRange
   \<and> calculateSelfEnergyVertexMainAlgorithm integerDoubles (-1) [0, 0] exampleIndex exampleSusceptibility
       (removeNegligible integerDoubles [exampleLeftSmall\<lparr>creationOperatorIndices := []\<rparr>])
       (removeNegligible integerDoubles []) 1 = Inr [0, 0]"
  by (simp add: example_defs vertex_defs integerDoubles_defs)

section \<open>The vertex: the order of the amplitude lists\<close>

lemma length_vadd [simp]: "length (vadd A f v) = length v"
  by (simp add: vadd_def)

lemma nth_vadd [simp]: "k < length v \<Longrightarrow> vadd A f v ! k = cplus A (v ! k) (f k)"
  by (simp add: vadd_def)

lemma length_fold_vadd [simp]: "length (fold (vadd A) fs v) = length v"
  by (induction fs arbitrary: v) simp_all

lemma vadd_commute:
  assumes "incrementsCommute A"
  shows "vadd A f (vadd A g v) = vadd A g (vadd A f v)"
proof (rule nth_equalityI)
  show "length (vadd A f (vadd A g v)) = length (vadd A g (vadd A f v))" by simp
next
  fix k assume "k < length (vadd A f (vadd A g v))"
  then have k: "k < length v" by simp
  from assms have "cplus A (cplus A (v ! k) (g k)) (f k) = cplus A (cplus A (v ! k) (f k)) (g k)"
    unfolding incrementsCommute_def by blast
  with k show "vadd A f (vadd A g v) ! k = vadd A g (vadd A f v) ! k" by simp
qed

lemma energyLoop_char:
  "energyLoop A v ai ao d off m n =
     (if \<forall>k. n \<le> k \<and> k < length v \<longrightarrow> off + k < length d
      then Inr (map (\<lambda>k. if n \<le> k then cplus A (v ! k) (pairTerm A ai ao (d ! (off + k)) m)
                          else v ! k) [0..<length v])
      else Inl InvalidMemoryAccess)"
proof (induction A v ai ao d off m n rule: energyLoop.induct)
  case (1 A v ai ao d off m n)
  let ?t = "\<lambda>k. pairTerm A ai ao (d ! (off + k)) m"
  show ?case
  proof (cases "n < length v")
    case False
    then have "energyLoop A v ai ao d off m n = Inr v"
      by (subst energyLoop.simps) simp
    moreover from False
    have "map (\<lambda>k. if n \<le> k then cplus A (v ! k) (?t k) else v ! k) [0..<length v] = v"
      by (intro nth_equalityI) simp_all
    moreover from False have "\<forall>k. n \<le> k \<and> k < length v \<longrightarrow> off + k < length d" by simp
    ultimately show ?thesis by simp
  next
    case True
    show ?thesis
    proof (cases "off + n < length d")
      case False
      with True have "energyLoop A v ai ao d off m n = Inl InvalidMemoryAccess"
        by (subst energyLoop.simps) simp
      moreover from False True have "\<not> (\<forall>k. n \<le> k \<and> k < length v \<longrightarrow> off + k < length d)"
        by blast
      ultimately show ?thesis by simp
    next
      case inb: True
      let ?v' = "v[n := cplus A (v ! n) (?t n)]"
      from True inb
      have unfold: "energyLoop A v ai ao d off m n = energyLoop A ?v' ai ao d off m (Suc n)"
        by (subst energyLoop.simps) simp
      have cond: "(\<forall>k. Suc n \<le> k \<and> k < length ?v' \<longrightarrow> off + k < length d)
          \<longleftrightarrow> (\<forall>k. n \<le> k \<and> k < length v \<longrightarrow> off + k < length d)"
      proof -
        have "off + k < length d" if "\<forall>j. Suc n \<le> j \<and> j < length v \<longrightarrow> off + j < length d"
          "n \<le> k" "k < length v" for k
          using that inb by (cases "k = n") auto
        then show ?thesis by auto
      qed
      have val: "map (\<lambda>k. if Suc n \<le> k then cplus A (?v' ! k) (?t k) else ?v' ! k)
            [0..<length ?v']
          = map (\<lambda>k. if n \<le> k then cplus A (v ! k) (?t k) else v ! k) [0..<length v]"
      proof (rule nth_equalityI)
        show "length (map (\<lambda>k. if Suc n \<le> k then cplus A (?v' ! k) (?t k) else ?v' ! k)
              [0..<length ?v'])
            = length (map (\<lambda>k. if n \<le> k then cplus A (v ! k) (?t k) else v ! k)
              [0..<length v])" by simp
      next
        fix k
        assume "k < length (map (\<lambda>k. if Suc n \<le> k then cplus A (?v' ! k) (?t k) else ?v' ! k)
              [0..<length ?v'])"
        then have k: "k < length v" by simp
        show "map (\<lambda>k. if Suc n \<le> k then cplus A (?v' ! k) (?t k) else ?v' ! k)
              [0..<length ?v'] ! k
            = map (\<lambda>k. if n \<le> k then cplus A (v ! k) (?t k) else v ! k) [0..<length v] ! k"
          using k by (cases "k = n") (simp_all add: nth_list_update)
      qed
      from "1.IH" [OF True inb] have "energyLoop A ?v' ai ao d off m (Suc n) =
        (if \<forall>k. Suc n \<le> k \<and> k < length ?v' \<longrightarrow> off + k < length d
         then Inr (map (\<lambda>k. if Suc n \<le> k then cplus A (?v' ! k) (?t k) else ?v' ! k)
                [0..<length ?v'])
         else Inl InvalidMemoryAccess)" .
      then show ?thesis unfolding unfold cond val .
    qed
  qed
qed

lemma returned_simps [simp]: "returned (Inl e) = None" "returned (Inr v) = Some v"
  by (simp_all add: returned_def)

lemma energyLoop_from_0:
  "energyLoop A v ai ao d off m 0 =
     (if \<forall>k<length v. off + k < length d
      then Inr (vadd A (\<lambda>k. pairTerm A ai ao (d ! (off + k)) m) v)
      else Inl InvalidMemoryAccess)"
  by (simp add: energyLoop_char vadd_def)

lemma rightLoop_step:
  "returned (rightLoop A sep kI ib S m ai c1 a0 v (u # us)) =
     (case rightStep A sep kI ib S m ai c1 a0 (length v) u of
        None \<Rightarrow> None
      | Some fs \<Rightarrow> returned (rightLoop A sep kI ib S m ai c1 a0 (fold (vadd A) fs v) us))"
proof (cases "operatorSubindices u")
  case (Inl e)
  then show ?thesis by (simp add: rightStep_def)
next
  case (Inr l)
  obtain c0_o c1_o a0_o a1_o where l: "l = (c0_o, c1_o, a0_o, a1_o)" by (cases l)
  show ?thesis
  proof (cases "a0_o \<noteq> ib ! 0 ! 0 \<or> c1_o \<noteq> ib ! 1 ! 0 \<or> negligible A (amplitude u)")
    case True
    with Inr l show ?thesis by (simp add: rightStep_def)
  next
    case False
    let ?i = "compoundIndex sep [kI, [c0_o], [a1_o], [c1], [a0]]"
    show ?thesis
    proof (cases "offsets S ?i")
      case None
      with False Inr l show ?thesis
        by (simp add: rightStep_def getOffset_def del: compoundIndex.simps)
    next
      case (Some off)
      with False Inr l show ?thesis
        by (auto simp add: rightStep_def getOffset_def energyLoop_from_0
            simp del: compoundIndex.simps)
    qed
  qed
qed

lemma rightLoop_char:
  "returned (rightLoop A sep kI ib S m ai c1 a0 v us) =
     (if \<forall>u \<in> set us. rightStep A sep kI ib S m ai c1 a0 (length v) u \<noteq> None
      then Some (fold (vadd A)
             (concat (map (\<lambda>u. the (rightStep A sep kI ib S m ai c1 a0 (length v) u)) us)) v)
      else None)"
proof (induction us arbitrary: v)
  case Nil
  show ?case by simp
next
  case (Cons u us)
  show ?case
  proof (cases "rightStep A sep kI ib S m ai c1 a0 (length v) u")
    case None
    then show ?thesis by (simp add: rightLoop_step del: rightLoop.simps)
  next
    case (Some fs)
    then show ?thesis
      by (simp add: rightLoop_step Cons.IH del: rightLoop.simps)
  qed
qed

lemma leftLoop_step:
  "returned (leftLoop A sep kI ib S m uR v (u # us)) =
     (case leftStep A sep kI ib S m uR (length v) u of
        None \<Rightarrow> None
      | Some fs \<Rightarrow> returned (leftLoop A sep kI ib S m uR (fold (vadd A) fs v) us))"
proof (cases "operatorSubindices u")
  case (Inl e)
  then show ?thesis by (simp add: leftStep_def)
next
  case (Inr l)
  obtain c0 c1 a0 a1 where l: "l = (c0, c1, a0, a1)" by (cases l)
  show ?thesis
  proof (cases "a1 \<noteq> ib ! 3 ! 0 \<or> c0 \<noteq> ib ! 2 ! 0 \<or> negligible A (amplitude u)")
    case True
    with Inr l show ?thesis by (simp add: leftStep_def)
  next
    case False
    have "returned (case rightLoop A sep kI ib S m (amplitude u) c1 a0 v uR of
              Inl e \<Rightarrow> Inl e | Inr v' \<Rightarrow> leftLoop A sep kI ib S m uR v' us)
        = (case returned (rightLoop A sep kI ib S m (amplitude u) c1 a0 v uR) of
             None \<Rightarrow> None | Some v' \<Rightarrow> returned (leftLoop A sep kI ib S m uR v' us))"
      by (simp split: sum.splits)
    with False Inr l show ?thesis
      by (auto simp add: leftStep_def rightLoop_char)
  qed
qed

lemma leftLoop_char:
  "returned (leftLoop A sep kI ib S m uR v us) =
     (if \<forall>u \<in> set us. leftStep A sep kI ib S m uR (length v) u \<noteq> None
      then Some (fold (vadd A)
             (concat (map (\<lambda>u. the (leftStep A sep kI ib S m uR (length v) u)) us)) v)
      else None)"
proof (induction us arbitrary: v)
  case Nil
  show ?case by simp
next
  case (Cons u us)
  show ?case
  proof (cases "leftStep A sep kI ib S m uR (length v) u")
    case None
    then show ?thesis by (simp add: leftLoop_step del: leftLoop.simps)
  next
    case (Some fs)
    then show ?thesis
      by (simp add: leftLoop_step Cons.IH del: leftLoop.simps)
  qed
qed

text \<open>The increments of a permuted list are the same increments, in another order.\<close>

lemma sum_list_map_mset:
  fixes f :: "'a \<Rightarrow> 'b::comm_monoid_add"
  assumes "mset xs = mset ys"
  shows "sum_list (map f xs) = sum_list (map f ys)"
proof -
  have "sum_list (map f xs) = sum_mset (image_mset f (mset xs))"
    by (metis mset_map sum_mset_sum_list)
  also have "\<dots> = sum_mset (image_mset f (mset ys))" using assms by simp
  also have "\<dots> = sum_list (map f ys)"
    by (metis mset_map sum_mset_sum_list)
  finally show ?thesis .
qed

lemma mset_concat_map:
  assumes "mset xs = mset ys"
  shows "mset (concat (map g xs)) = mset (concat (map g ys))"
proof -
  have "mset (concat (map g zs)) = sum_list (map (\<lambda>z. mset (g z)) zs)" for zs
    by (simp add: mset_concat comp_def)
  with sum_list_map_mset [OF assms, of "\<lambda>z. mset (g z)"] show ?thesis by simp
qed

lemma leftStep_mset:
  assumes "mset uR' = mset uR"
  shows "map_option mset (leftStep A sep kI ib S m uR' N u)
       = map_option mset (leftStep A sep kI ib S m uR N u)"
proof -
  from assms have "set uR' = set uR" by (rule mset_eq_setD)
  moreover have "mset (concat (map g uR')) = mset (concat (map g uR))"
    for g :: "'a InteractionAmplitude \<Rightarrow> (nat \<Rightarrow> 'a) list"
    using assms by (rule mset_concat_map)
  ultimately show ?thesis
    by (auto simp add: leftStep_def split: sum.splits prod.splits)
qed

lemma fold_vadd_mset:
  assumes "incrementsCommute A" "mset fs = mset gs"
  shows "fold (vadd A) fs v = fold (vadd A) gs v"
proof -
  have "vadd A f \<circ> vadd A g = vadd A g \<circ> vadd A f" for f g
    using vadd_commute [OF assms(1)] by (auto simp: fun_eq_iff)
  then have "fold (vadd A) fs = fold (vadd A) gs"
    using assms(2) by (intro fold_multiset_equiv) auto
  then show ?thesis by simp
qed

lemma leftLoop_mset:
  assumes comm: "incrementsCommute A"
    and L: "mset uL' = mset uL" and R: "mset uR' = mset uR"
  shows "returned (leftLoop A sep kI ib S m uR' v uL')
       = returned (leftLoop A sep kI ib S m uR v uL)"
proof -
  let ?s' = "\<lambda>u. leftStep A sep kI ib S m uR' (length v) u"
  let ?s = "\<lambda>u. leftStep A sep kI ib S m uR (length v) u"
  from L have sets: "set uL' = set uL" by (rule mset_eq_setD)
  have opt: "map_option mset (?s' u) = map_option mset (?s u)" for u
    by (rule leftStep_mset [OF R])
  have none: "?s' u = None \<longleftrightarrow> ?s u = None" for u
    using opt [of u] by (cases "?s' u"; cases "?s u") simp_all
  have the: "mset (the (?s' u)) = mset (the (?s u))" for u
    using opt [of u] by (cases "?s' u"; cases "?s u") simp_all
  have "mset (concat (map (\<lambda>u. the (?s' u)) uL'))
      = sum_list (map (\<lambda>u. mset (the (?s' u))) uL')"
    by (simp add: mset_concat comp_def)
  also have "\<dots> = sum_list (map (\<lambda>u. mset (the (?s u))) uL')"
    by (simp add: the)
  also have "\<dots> = sum_list (map (\<lambda>u. mset (the (?s u))) uL)"
    by (rule sum_list_map_mset [OF L])
  also have "\<dots> = mset (concat (map (\<lambda>u. the (?s u)) uL))"
    by (simp add: mset_concat comp_def)
  finally have "fold (vadd A) (concat (map (\<lambda>u. the (?s' u)) uL')) v
      = fold (vadd A) (concat (map (\<lambda>u. the (?s u)) uL)) v"
    by (rule fold_vadd_mset [OF comm])
  with sets none show ?thesis
    by (simp add: leftLoop_char)
qed

text \<open>
  C3. In binary64 arithmetic the vector the main algorithm returns depends on the
  order of the amplitude lists: each \<^verbatim>\<open>+=\<close> rounds, and \<open>1e16 + 1\<close> is \<open>1e16\<close>. With
  the incoming amplitudes \<open>1e16, 1, -1e16\<close>, one outgoing amplitude \<open>1\<close>, the
  susceptibility value \<open>1\<close> and the multiplier \<open>1\<close>, the call returns \<open>[0]\<close>; with
  the same incoming amplitudes in the order \<open>1e16, -1e16, 1\<close> it returns \<open>[1]\<close>.
\<close>

theorem accumulation_order_counterexample:
  "mset [exampleLeftA\<lparr>amplitude := 10000000000000000\<rparr>,
         exampleLeftA\<lparr>amplitude := - 10000000000000000\<rparr>,
         exampleLeftA\<lparr>amplitude := 1\<rparr>]
     = mset [exampleLeftA\<lparr>amplitude := 10000000000000000\<rparr>,
             exampleLeftA\<lparr>amplitude := 1\<rparr>,
             exampleLeftA\<lparr>amplitude := - 10000000000000000 :: int\<rparr>]
   \<and> returned (calculateSelfEnergyVertexMainAlgorithm integerDoubles (-1) [0] exampleIndex
        exampleSusceptibility
        [exampleLeftA\<lparr>amplitude := 10000000000000000\<rparr>,
         exampleLeftA\<lparr>amplitude := 1\<rparr>,
         exampleLeftA\<lparr>amplitude := - 10000000000000000\<rparr>]
        [exampleRight\<lparr>amplitude := 1\<rparr>] 1) = Some [0]
   \<and> returned (calculateSelfEnergyVertexMainAlgorithm integerDoubles (-1) [0] exampleIndex
        exampleSusceptibility
        [exampleLeftA\<lparr>amplitude := 10000000000000000\<rparr>,
         exampleLeftA\<lparr>amplitude := - 10000000000000000\<rparr>,
         exampleLeftA\<lparr>amplitude := 1\<rparr>]
        [exampleRight\<lparr>amplitude := 1\<rparr>] 1) = Some [1]"
proof -
  have bits: "excessBits 10000000000000000 = 1" "excessBits 10000000000000001 = 1"
    by (subst excessBits.simps, simp, subst excessBits.simps, simp)+
  have big: "roundToDouble 10000000000000000 = 10000000000000000"
    "roundToDouble (- 10000000000000000) = - 10000000000000000"
    and tie: "roundToDouble 10000000000000001 = 10000000000000000"
    by (simp_all add: roundToDouble_def Let_def bits)
  show ?thesis
    by (simp add: example_defs vertex_defs integerDoubles_defs big tie add_mset_commute)
qed

text \<open>
  C3, as it holds. The vector the main algorithm returns does not depend on the order
  of either amplitude list in any arithmetic whose addition is insensitive to the
  order of two successive increments, \<open>(a + b) + c = (a + c) + b\<close>, as exact addition
  is: on a permutation of \<^verbatim>\<open>uLeft\<close> and a permutation of \<^verbatim>\<open>uRight\<close> the call then
  returns a vector exactly when the original call does, and the same one. Nothing is
  asked of the products, of the cutoff test or of the Index.
\<close>

theorem accumulation_order_irrelevant:
  assumes "incrementsCommute A"
    and "mset uLeft' = mset uLeft" and "mset uRight' = mset uRight"
  shows "returned (calculateSelfEnergyVertexMainAlgorithm A sep v index S uLeft' uRight' m)
       = returned (calculateSelfEnergyVertexMainAlgorithm A sep v index S uLeft uRight m)"
  by (simp add: calculateSelfEnergyVertexMainAlgorithm_def Let_def
      leftLoop_mset [OF assms] split: option.splits)

theorem accumulation_order_irrelevant_witness:
  "incrementsCommute exactArithmetic
   \<and> mset [exampleLeftB, exampleLeftSmall, exampleLeftA]
       = mset [exampleLeftA, exampleLeftSmall, exampleLeftB :: complex InteractionAmplitude]
   \<and> mset [exampleRight, exampleRightSmall]
       = mset [exampleRightSmall, exampleRight :: complex InteractionAmplitude]
   \<and> returned (calculateSelfEnergyVertexMainAlgorithm exactArithmetic (-1) [0, 0] exampleIndex
        exampleSusceptibility [exampleLeftB, exampleLeftSmall, exampleLeftA]
        [exampleRight, exampleRightSmall] 1) = Some [51, 72]"
proof -
  have comm: "incrementsCommute exactArithmetic"
    by (simp add: incrementsCommute_def exactArithmetic_def)
  have L: "mset [exampleLeftB, exampleLeftSmall, exampleLeftA]
     = mset [exampleLeftA, exampleLeftSmall, exampleLeftB :: complex InteractionAmplitude]"
    and R: "mset [exampleRight, exampleRightSmall]
     = mset [exampleRightSmall, exampleRight :: complex InteractionAmplitude]"
    by (simp_all add: add_mset_commute)
  have "calculateSelfEnergyVertexMainAlgorithm exactArithmetic (-1) [0, 0] exampleIndex
     exampleSusceptibility [exampleLeftA, exampleLeftSmall, exampleLeftB]
     [exampleRightSmall, exampleRight] 1 = Inr [51, 72]"
    by (simp add: example_defs vertex_defs exactArithmetic_def)
  with accumulation_order_irrelevant [OF comm L R, of "-1" "[0, 0]" exampleIndex
      exampleSusceptibility 1]
  have "returned (calculateSelfEnergyVertexMainAlgorithm exactArithmetic (-1) [0, 0]
        exampleIndex exampleSusceptibility [exampleLeftB, exampleLeftSmall, exampleLeftA]
        [exampleRight, exampleRightSmall] 1) = Some [51, 72]" by simp
  with comm L R show ?thesis by blast
qed

text \<open>
  Which diagnostic ends a failing call can depend on the order of a list: of an
  amplitude that cannot be read and one whose susceptibility block is missing, the
  first in the list decides.
\<close>

lemma diagnostic_depends_on_order:
  "calculateSelfEnergyVertexMainAlgorithm integerDoubles (-1) [0, 0] exampleIndex
     exampleSusceptibility
     [exampleLeftA\<lparr>creationOperatorIndices := []\<rparr>,
      exampleLeftA\<lparr>creationOperatorIndices := [[3], [11]]\<rparr>] [exampleRight] 1
     = Inl OutOfRange
   \<and> calculateSelfEnergyVertexMainAlgorithm integerDoubles (-1) [0, 0] exampleIndex
       exampleSusceptibility
       [exampleLeftA\<lparr>creationOperatorIndices := [[3], [11]]\<rparr>,
        exampleLeftA\<lparr>creationOperatorIndices := []\<rparr>] [exampleRight] 1
     = Inl IndexNotIncluded"
  by (simp add: example_defs vertex_defs integerDoubles_defs)

section \<open>Eigenvalues\<close>

text \<open>
  C9. \<^verbatim>\<open>getEigenValue(state)\<close> of the property extractor returns the entry at
  position \<open>state\<close> of the solver's ascending eigenvalue sequence for every \<open>state\<close> in
  \<open>[0, N)\<close>, and fails for every other \<open>state\<close>.
\<close>

theorem getEigenValue_in_range:
  "(0 \<le> state \<and> state < int (length (eigenValues (dSolver pe))) \<longrightarrow>
      getEigenValue pe state = Inr (eigenValues (dSolver pe) ! nat state))
   \<and> (\<not> (0 \<le> state \<and> state < int (length (eigenValues (dSolver pe)))) \<longrightarrow>
      getEigenValue pe state = Inl OutOfRange)"
  by (simp add: getEigenValue_def Solver_getEigenValue_def)

theorem getEigenValue_in_range_witness:
  "getEigenValue \<lparr>dSolver = \<lparr>eigenValues = [-1, 1]\<rparr>\<rparr> 1 = Inr 1
   \<and> getEigenValue \<lparr>dSolver = \<lparr>eigenValues = [-1, 1]\<rparr>\<rparr> 2 = Inl OutOfRange
   \<and> getEigenValue \<lparr>dSolver = \<lparr>eigenValues = [-1, 1]\<rparr>\<rparr> (-1) = Inl OutOfRange"
  using getEigenValue_in_range [of 1 "\<lparr>dSolver = \<lparr>eigenValues = [-1, 1]\<rparr>\<rparr>"]
    getEigenValue_in_range [of 2 "\<lparr>dSolver = \<lparr>eigenValues = [-1, 1]\<rparr>\<rparr>"]
    getEigenValue_in_range [of "-1" "\<lparr>dSolver = \<lparr>eigenValues = [-1, 1]\<rparr>\<rparr>"]
  by simp

end
